theory Spec2Isabelle
  imports Complex_Main
begin

section \<open>Snake-SHM v0.3.2: the path planner (class Algs)\<close>

text \<open>
  Grid cells are pairs of Python integers. The move names of \<^verbatim>\<open>Algs.MOVES\<close> (and the
  fifth name \<^verbatim>\<open>STAY\<close> of the Vacuum-X action table) are the constructors of one
  datatype; the table keeps the order of the source.
\<close>

type_synonym pos = "int \<times> int"

datatype move = UP | DOWN | LEFT | RIGHT | STAY

definition MOVES :: "(move \<times> (int \<times> int)) list" where
  "MOVES = [(UP, (0, -1)), (DOWN, (0, 1)), (LEFT, (-1, 0)), (RIGHT, (1, 0))]"

text \<open>
  One pass of the inner \<^verbatim>\<open>for\<close> loop of \<^verbatim>\<open>flood_fill_count\<close>: the neighbour is
  appended to the queue and marked visited when it is inside the grid, not an obstacle
  and not yet visited.
\<close>

fun flood_visit :: "pos set \<Rightarrow> int \<Rightarrow> int \<Rightarrow> pos \<Rightarrow> move \<times> (int \<times> int) \<Rightarrow>
    pos list \<times> pos set \<Rightarrow> pos list \<times> pos set" where
  "flood_visit obs_set w h (cx, cy) (m_name, (dx, dy)) (q, visited) =
     (let nx = cx + dx; ny = cy + dy in
      if 0 \<le> nx \<and> nx < w \<and> 0 \<le> ny \<and> ny < h
         \<and> (nx, ny) \<notin> obs_set \<and> (nx, ny) \<notin> visited
      then (q @ [(nx, ny)], insert (nx, ny) visited)
      else (q, visited))"

text \<open>The same pass in \<^verbatim>\<open>bfs_path\<close>, whose queue entries carry the path walked so far.\<close>

fun bfs_visit :: "pos set \<Rightarrow> int \<Rightarrow> int \<Rightarrow> pos \<Rightarrow> move list \<Rightarrow> move \<times> (int \<times> int) \<Rightarrow>
    (pos \<times> move list) list \<times> pos set \<Rightarrow> (pos \<times> move list) list \<times> pos set" where
  "bfs_visit obs_set w h (cx, cy) path (m_name, (dx, dy)) (q, visited) =
     (let nx = cx + dx; ny = cy + dy in
      if 0 \<le> nx \<and> nx < w \<and> 0 \<le> ny \<and> ny < h
         \<and> (nx, ny) \<notin> obs_set \<and> (nx, ny) \<notin> visited
      then (q @ [((nx, ny), path @ [m_name])], insert (nx, ny) visited)
      else (q, visited))"

subsection \<open>Termination of the two searches\<close>

definition grid :: "int \<Rightarrow> int \<Rightarrow> pos set" where
  "grid w h = {0..<w} \<times> {0..<h}"

definition passable :: "pos set \<Rightarrow> int \<Rightarrow> int \<Rightarrow> pos \<Rightarrow> bool" where
  "passable obs_set w h p \<longleftrightarrow> p \<in> grid w h \<and> p \<notin> obs_set"

definition nbr :: "pos \<Rightarrow> move \<times> (int \<times> int) \<Rightarrow> pos" where
  "nbr c md = (fst c + fst (snd md), snd c + snd (snd md))"

definition todo :: "int \<Rightarrow> int \<Rightarrow> pos list \<times> pos set \<Rightarrow> nat" where
  "todo w h s = 2 * card (grid w h - snd s) + length (fst s)"

lemma finite_grid: "finite (grid w h)"
  by (simp add: grid_def)

lemma flood_visit_eq:
  "flood_visit obs_set w h c md (q, visited) =
     (if passable obs_set w h (nbr c md) \<and> nbr c md \<notin> visited
      then (q @ [nbr c md], insert (nbr c md) visited) else (q, visited))"
  by (cases c; cases md; cases "snd md")
     (auto simp add: passable_def grid_def nbr_def Let_def)

lemma bfs_visit_eq:
  "bfs_visit obs_set w h c path md (q, visited) =
     (if passable obs_set w h (nbr c md) \<and> nbr c md \<notin> visited
      then (q @ [(nbr c md, path @ [fst md])], insert (nbr c md) visited) else (q, visited))"
  by (cases c; cases md; cases "snd md")
     (auto simp add: passable_def grid_def nbr_def Let_def)

text \<open>
  What one sweep over a list of moves adds: the passable neighbours not yet visited,
  each once, in the order of the list.
\<close>

fun fresh :: "pos set \<Rightarrow> int \<Rightarrow> int \<Rightarrow> pos \<Rightarrow> (move \<times> (int \<times> int)) list \<Rightarrow> pos set \<Rightarrow>
    (move \<times> pos) list" where
  "fresh obs_set w h c [] visited = []"
| "fresh obs_set w h c (md # ms) visited =
     (if passable obs_set w h (nbr c md) \<and> nbr c md \<notin> visited
      then (fst md, nbr c md) # fresh obs_set w h c ms (insert (nbr c md) visited)
      else fresh obs_set w h c ms visited)"

lemma fold_flood_visit:
  "fold (flood_visit obs_set w h c) ms (q, visited) =
     (q @ map snd (fresh obs_set w h c ms visited),
      visited \<union> snd ` set (fresh obs_set w h c ms visited))"
  by (induction ms arbitrary: q visited) (simp_all add: flood_visit_eq)

lemma fold_bfs_visit:
  "fold (bfs_visit obs_set w h c path) ms (q, visited) =
     (q @ map (\<lambda>(m, n). (n, path @ [m])) (fresh obs_set w h c ms visited),
      visited \<union> snd ` set (fresh obs_set w h c ms visited))"
  by (induction ms arbitrary: q visited) (simp_all add: bfs_visit_eq)

lemma fresh_set:
  "snd ` set (fresh obs_set w h c ms visited) =
     {n \<in> nbr c ` set ms. passable obs_set w h n} - visited"
  by (induction ms arbitrary: visited) auto

lemma fresh_distinct: "distinct (map snd (fresh obs_set w h c ms visited))"
proof (induction ms arbitrary: visited)
  case Nil
  then show ?case by simp
next
  case (Cons md ms)
  have "nbr c md \<notin> snd ` set (fresh obs_set w h c ms (insert (nbr c md) visited))"
    by (simp add: fresh_set)
  with Cons.IH show ?case by simp
qed

lemma fresh_move:
  "(m, n) \<in> set (fresh obs_set w h c ms visited) \<Longrightarrow>
     \<exists>d. (m, d) \<in> set ms \<and> n = nbr c (m, d) \<and> passable obs_set w h n \<and> n \<notin> visited"
proof (induction ms arbitrary: visited)
  case Nil
  then show ?case by simp
next
  case (Cons md ms)
  show ?case
  proof (cases "passable obs_set w h (nbr c md) \<and> nbr c md \<notin> visited")
    case True
    with Cons.prems
    consider "(m, n) = (fst md, nbr c md)"
      | "(m, n) \<in> set (fresh obs_set w h c ms (insert (nbr c md) visited))"
      by auto
    then show ?thesis
    proof cases
      case 1
      then have "(m, snd md) \<in> set (md # ms)" "n = nbr c (m, snd md)"
        by (auto simp add: nbr_def)
      with True 1 show ?thesis by (metis prod.inject)
    next
      case 2
      from Cons.IH [OF 2] show ?thesis by auto
    qed
  next
    case False
    with Cons.prems have "(m, n) \<in> set (fresh obs_set w h c ms visited)" by auto
    from Cons.IH [OF this] show ?thesis by auto
  qed
qed

lemma fresh_todo:
  "todo w h (q @ map snd (fresh obs_set w h c ms visited),
             visited \<union> snd ` set (fresh obs_set w h c ms visited)) \<le> todo w h (q, visited)"
proof -
  let ?new = "snd ` set (fresh obs_set w h c ms visited)"
  have sub: "?new \<subseteq> grid w h - visited"
    by (auto simp add: fresh_set passable_def)
  have fin: "finite (grid w h - visited)"
    using finite_grid by simp
  have "grid w h - (visited \<union> ?new) = (grid w h - visited) - ?new"
    by auto
  then have "card (grid w h - (visited \<union> ?new)) = card (grid w h - visited) - card ?new"
    using sub fin by (simp add: card_Diff_subset finite_subset)
  moreover have "card ?new \<le> card (grid w h - visited)"
    using sub fin by (rule card_mono [rotated])
  moreover have "length (fresh obs_set w h c ms visited) = card ?new"
    using fresh_distinct [of obs_set w h c ms visited]
    by (metis distinct_card length_map set_map)
  ultimately show ?thesis
    by (simp add: todo_def)
qed

lemma flood_loop_decreases:
  "todo w h (fold (flood_visit obs_set w h c) MOVES (q, visited)) < todo w h (c # q, visited)"
proof -
  have "todo w h (fold (flood_visit obs_set w h c) MOVES (q, visited)) \<le> todo w h (q, visited)"
    unfolding fold_flood_visit by (rule fresh_todo)
  also have "\<dots> < todo w h (c # q, visited)"
    by (simp add: todo_def)
  finally show ?thesis .
qed

lemma bfs_loop_decreases:
  "(case fold (bfs_visit obs_set w h c path) MOVES (q, visited) of
      (q', visited') \<Rightarrow> todo w h (map fst q', visited')) < todo w h (c # map fst q, visited)"
proof -
  have "todo w h (map fst q @ map snd (fresh obs_set w h c MOVES visited),
                  visited \<union> snd ` set (fresh obs_set w h c MOVES visited))
          \<le> todo w h (map fst q, visited)"
    by (rule fresh_todo)
  also have "\<dots> < todo w h (c # map fst q, visited)"
    by (simp add: todo_def)
  finally show ?thesis
    by (simp add: fold_bfs_visit case_prod_unfold comp_def)
qed

subsection \<open>The searches\<close>

text \<open>
  \<^verbatim>\<open>flood_fill_count\<close>: the \<^verbatim>\<open>while q\<close> loop pops the front cell, counts it and sweeps its
  four neighbours.
\<close>

function flood_loop :: "pos set \<Rightarrow> int \<Rightarrow> int \<Rightarrow> pos list \<Rightarrow> pos set \<Rightarrow> int \<Rightarrow> int" where
  "flood_loop obs_set w h [] visited count = count"
| "flood_loop obs_set w h (c # q) visited count =
     (case fold (flood_visit obs_set w h c) MOVES (q, visited) of
        (q', visited') \<Rightarrow> flood_loop obs_set w h q' visited' (count + 1))"
  by pat_completeness auto
termination
  by (relation "measure (\<lambda>(obs_set, w, h, q, visited, count). todo w h (q, visited))")
     (auto simp add: flood_loop_decreases)

definition flood_fill_count :: "pos \<Rightarrow> pos list \<Rightarrow> int \<Rightarrow> int \<Rightarrow> int" where
  "flood_fill_count start obstacles w h = flood_loop (set obstacles) w h [start] {start} 0"

text \<open>
  \<^verbatim>\<open>bfs_path\<close>: the loop returns at the first popped entry whose cell is the goal. The
  loop below yields the path of that entry (\<open>None\<close> when the queue runs empty), and
  \<open>bfs_path\<close> applies the source's \<^verbatim>\<open>path[0] if path else None\<close> to it.
\<close>

function bfs_loop :: "pos \<Rightarrow> pos set \<Rightarrow> int \<Rightarrow> int \<Rightarrow> (pos \<times> move list) list \<Rightarrow> pos set \<Rightarrow>
    move list option" where
  "bfs_loop goal obs_set w h [] visited = None"
| "bfs_loop goal obs_set w h ((c, path) # q) visited =
     (if c = goal then Some path
      else case fold (bfs_visit obs_set w h c path) MOVES (q, visited) of
             (q', visited') \<Rightarrow> bfs_loop goal obs_set w h q' visited')"
  by pat_completeness auto
termination
  by (relation "measure (\<lambda>(goal, obs_set, w, h, q, visited). todo w h (map fst q, visited))")
     (auto simp add: bfs_loop_decreases)

definition bfs_search :: "pos \<Rightarrow> pos \<Rightarrow> pos list \<Rightarrow> int \<Rightarrow> int \<Rightarrow> move list option" where
  "bfs_search start goal obstacles w h = bfs_loop goal (set obstacles) w h [(start, [])] {start}"

definition bfs_path :: "pos \<Rightarrow> pos \<Rightarrow> pos list \<Rightarrow> int \<Rightarrow> int \<Rightarrow> move option" where
  "bfs_path start goal obstacles w h =
     (case bfs_search start goal obstacles w h of
        None \<Rightarrow> None
      | Some path \<Rightarrow> (case path of [] \<Rightarrow> None | m_name # _ \<Rightarrow> Some m_name))"

text \<open>\<^verbatim>\<open>get_max_reach_move\<close>: one pass of its loop, then the loop over the four moves.\<close>

fun reach_visit :: "pos \<Rightarrow> pos list \<Rightarrow> int \<Rightarrow> int \<Rightarrow> move \<times> (int \<times> int) \<Rightarrow>
    move option \<times> int \<Rightarrow> move option \<times> int" where
  "reach_visit (hx, hy) obstacles w h (m_name, (dx, dy)) (best_move, max_area) =
     (let nx = hx + dx; ny = hy + dy in
      if 0 \<le> nx \<and> nx < w \<and> 0 \<le> ny \<and> ny < h \<and> (nx, ny) \<notin> set obstacles
      then (let area = flood_fill_count (nx, ny) obstacles w h in
            if area > max_area then (Some m_name, area) else (best_move, max_area))
      else (best_move, max_area))"

definition get_max_reach_move :: "pos \<Rightarrow> pos list \<Rightarrow> int \<Rightarrow> int \<Rightarrow> move option" where
  "get_max_reach_move head obstacles w h =
     fst (fold (reach_visit head obstacles w h) MOVES (None, -1))"

subsection \<open>Walks on the grid\<close>

text \<open>
  A walk follows a list of move names from a cell; every cell it enters must be inside
  the grid and free. A cell is reachable from another when some walk leads there.
\<close>

fun walk :: "pos set \<Rightarrow> int \<Rightarrow> int \<Rightarrow> pos \<Rightarrow> move list \<Rightarrow> pos option" where
  "walk obs_set w h c [] = Some c"
| "walk obs_set w h c (m # ms) =
     (case map_of MOVES m of
        None \<Rightarrow> None
      | Some d \<Rightarrow>
          if passable obs_set w h (nbr c (m, d)) then walk obs_set w h (nbr c (m, d)) ms
          else None)"

definition reach :: "pos set \<Rightarrow> int \<Rightarrow> int \<Rightarrow> pos \<Rightarrow> pos set" where
  "reach obs_set w h start = {c. \<exists>path. walk obs_set w h start path = Some c}"

lemma walk_append:
  "walk obs_set w h c (p1 @ p2) =
     (case walk obs_set w h c p1 of None \<Rightarrow> None | Some c' \<Rightarrow> walk obs_set w h c' p2)"
  by (induction p1 arbitrary: c) (auto split: option.splits)

lemma MOVES_lookup: "(m, d) \<in> set MOVES \<Longrightarrow> map_of MOVES m = Some d"
  by (auto simp add: MOVES_def)

lemma MOVES_member: "map_of MOVES m = Some d \<Longrightarrow> (m, d) \<in> set MOVES"
  by (rule map_of_SomeD)

lemma walk_snoc:
  assumes "walk obs_set w h start path = Some c" "(m, d) \<in> set MOVES"
    "passable obs_set w h (nbr c (m, d))"
  shows "walk obs_set w h start (path @ [m]) = Some (nbr c (m, d))"
  using assms by (simp add: walk_append MOVES_lookup)

lemma fresh_walk:
  assumes "walk obs_set w h start path = Some c"
    "(m, n) \<in> set (fresh obs_set w h c MOVES visited)"
  shows "walk obs_set w h start (path @ [m]) = Some n"
proof -
  from fresh_move [OF assms(2)] obtain d where
    "(m, d) \<in> set MOVES" "n = nbr c (m, d)" "passable obs_set w h n" by blast
  with assms(1) show ?thesis by (simp add: walk_snoc)
qed

text \<open>Soundness of the search: a returned path is a walk from the start to the goal.\<close>

lemma bfs_loop_sound:
  "\<forall>(c, path) \<in> set q. walk obs_set w h start path = Some c \<Longrightarrow>
   bfs_loop goal obs_set w h q visited = Some p \<Longrightarrow>
   walk obs_set w h start p = Some goal"
proof (induction goal obs_set w h q visited rule: bfs_loop.induct)
  case (1 goal obs_set w h visited)
  then show ?case by simp
next
  case (2 goal obs_set w h c path q visited)
  show ?case
  proof (cases "c = goal")
    case True
    with "2.prems" show ?thesis by simp
  next
    case False
    let ?new = "fresh obs_set w h c MOVES visited"
    let ?q' = "q @ map (\<lambda>(m, n). (n, path @ [m])) ?new"
    let ?v' = "visited \<union> snd ` set ?new"
    have fold_eq: "fold (bfs_visit obs_set w h c path) MOVES (q, visited) = (?q', ?v')"
      by (rule fold_bfs_visit)
    have c: "walk obs_set w h start path = Some c"
      using "2.prems"(1) by simp
    have inv: "\<forall>(c', path') \<in> set ?q'. walk obs_set w h start path' = Some c'"
      using "2.prems"(1) fresh_walk [OF c] by auto
    have "bfs_loop goal obs_set w h ?q' ?v' = Some p"
      using "2.prems"(2) False by (simp add: fold_eq)
    with "2.IH" [OF False fold_eq [symmetric] inv] show ?thesis .
  qed
qed

lemma bfs_search_sound:
  "bfs_search start goal obstacles w h = Some p \<Longrightarrow>
     walk (set obstacles) w h start p = Some goal"
  unfolding bfs_search_def by (rule bfs_loop_sound [where q = "[(start, [])]"]) auto

lemma bfs_search_same: "bfs_search start start obstacles w h = Some []"
  by (simp add: bfs_search_def)

subsection \<open>The start cell of a flood fill\<close>



lemma flood_loop_mono: "count \<le> flood_loop obs_set w h q visited count"
proof (induction obs_set w h q visited count rule: flood_loop.induct)
  case (1 obs_set w h visited count)
  then show ?case by simp
next
  case (2 obs_set w h c q visited count)
  from "2.IH" [OF fold_flood_visit [symmetric]]
  show ?case by (simp add: fold_flood_visit)
qed

lemma flood_fill_count_pos: "1 \<le> flood_fill_count start obstacles w h"
  using flood_loop_mono [of "0 + 1" "set obstacles" w h]
  by (simp add: flood_fill_count_def fold_flood_visit)


subsection \<open>The flood fill counts the reachable region\<close>

definition nbr_closed :: "pos set \<Rightarrow> int \<Rightarrow> int \<Rightarrow> pos set \<Rightarrow> pos set \<Rightarrow> bool" where
  "nbr_closed obs_set w h P V \<longleftrightarrow>
     (\<forall>x \<in> P. \<forall>md \<in> set MOVES. passable obs_set w h (nbr x md) \<longrightarrow> nbr x md \<in> V)"

lemma walk_closed:
  "nbr_closed obs_set w h V V \<Longrightarrow> c \<in> V \<Longrightarrow> walk obs_set w h c path = Some c' \<Longrightarrow> c' \<in> V"
proof (induction path arbitrary: c)
  case Nil
  then show ?case by simp
next
  case (Cons m ms)
  from Cons.prems(3) obtain d where d: "map_of MOVES m = Some d"
    and p: "passable obs_set w h (nbr c (m, d))"
    and rest: "walk obs_set w h (nbr c (m, d)) ms = Some c'"
    by (auto split: option.splits if_splits)
  have "nbr c (m, d) \<in> V"
    using Cons.prems(1,2) p MOVES_member [OF d] by (auto simp add: nbr_closed_def)
  from Cons.IH [OF Cons.prems(1) this rest] show ?case .
qed

lemma walk_end: "walk obs_set w h c path = Some c' \<Longrightarrow> c' = c \<or> passable obs_set w h c'"
proof (induction path arbitrary: c)
  case Nil
  then show ?case by simp
next
  case (Cons m ms)
  from Cons.prems obtain d where p: "passable obs_set w h (nbr c (m, d))"
    and rest: "walk obs_set w h (nbr c (m, d)) ms = Some c'"
    by (auto split: option.splits if_splits)
  from Cons.IH [OF rest] p show ?case by auto
qed

lemma reach_subset: "reach obs_set w h start \<subseteq> insert start (grid w h)"
  using walk_end by (fastforce simp add: reach_def passable_def)

lemma finite_reach: "finite (reach obs_set w h start)"
  using reach_subset finite_grid by (metis finite_insert finite_subset)

lemma reach_start: "start \<in> reach obs_set w h start"
  unfolding reach_def using walk.simps(1) by blast

lemma reach_step:
  assumes "c \<in> reach obs_set w h start" "md \<in> set MOVES" "passable obs_set w h (nbr c md)"
  shows "nbr c md \<in> reach obs_set w h start"
proof -
  from assms(1) obtain path where "walk obs_set w h start path = Some c"
    by (auto simp add: reach_def)
  then have "walk obs_set w h start (path @ [fst md]) = Some (nbr c (fst md, snd md))"
    using assms(2,3) by (intro walk_snoc) simp_all
  then show ?thesis unfolding reach_def by auto
qed

lemma flood_loop_card:
  "set q \<subseteq> visited \<Longrightarrow> distinct q \<Longrightarrow> visited \<subseteq> reach obs_set w h start \<Longrightarrow>
   start \<in> visited \<Longrightarrow> nbr_closed obs_set w h (visited - set q) visited \<Longrightarrow>
   flood_loop obs_set w h q visited count =
     count + int (card (reach obs_set w h start - (visited - set q)))"
proof (induction obs_set w h q visited count rule: flood_loop.induct)
  case (1 obs_set w h visited count)
  have "nbr_closed obs_set w h visited visited"
    using "1.prems"(5) by simp
  then have "reach obs_set w h start \<subseteq> visited"
    using walk_closed [OF _ "1.prems"(4)] by (auto simp add: reach_def)
  then have "card (reach obs_set w h start - visited) = 0"
    by (simp add: Diff_eq_empty_iff [THEN iffD2])
  then show ?case by simp
next
  case (2 obs_set w h c q visited count)
  let ?R = "reach obs_set w h start"
  let ?new = "fresh obs_set w h c MOVES visited"
  let ?q' = "q @ map snd ?new"
  let ?v' = "visited \<union> snd ` set ?new"
  have N: "snd ` set ?new = {n \<in> nbr c ` set MOVES. passable obs_set w h n} - visited"
    by (rule fresh_set)
  have cR: "c \<in> ?R" and cq: "c \<notin> set q" and cv: "c \<in> visited"
    using "2.prems" by auto
  have i1: "set ?q' \<subseteq> ?v'"
    using "2.prems"(1) by auto
  have i2: "distinct ?q'"
    using "2.prems"(1,2) fresh_distinct [of obs_set w h c MOVES visited] N by auto
  have i3: "?v' \<subseteq> ?R"
    using "2.prems"(3) N reach_step [OF cR] by auto
  have i4: "start \<in> ?v'"
    using "2.prems"(4) by simp
  have done_eq: "?v' - set ?q' = insert c (visited - set (c # q))"
    using cq cv N by auto
  have i5: "nbr_closed obs_set w h (?v' - set ?q') ?v'"
    unfolding done_eq using "2.prems"(5) N by (auto simp add: nbr_closed_def)
  have "c \<in> ?R - (visited - set (c # q))"
    using cR by simp
  moreover have "?R - insert c (visited - set (c # q)) = (?R - (visited - set (c # q))) - {c}"
    by auto
  moreover have "finite (?R - (visited - set (c # q)))"
    using finite_reach by simp
  ultimately have card_eq:
    "card (?R - (visited - set (c # q))) = card (?R - insert c (visited - set (c # q))) + 1"
    by (metis Suc_eq_plus1 card_Suc_Diff1)
  have ih: "flood_loop obs_set w h ?q' ?v' (count + 1) =
      count + 1 + int (card (?R - (?v' - set ?q')))"
    by (rule "2.IH" [OF fold_flood_visit [symmetric] i1 i2 i3 i4 i5])
  have "flood_loop obs_set w h (c # q) visited count = flood_loop obs_set w h ?q' ?v' (count + 1)"
    by (simp add: fold_flood_visit)
  also have "\<dots> = count + 1 + int (card (?R - insert c (visited - set (c # q))))"
    using ih unfolding done_eq .
  also have "\<dots> = count + int (card (?R - (visited - set (c # q))))"
    unfolding card_eq by simp
  finally show ?case .
qed

lemma flood_fill_count_reach:
  "flood_fill_count start obstacles w h = int (card (reach (set obstacles) w h start))"
proof -
  have "flood_loop (set obstacles) w h [start] {start} 0 =
      0 + int (card (reach (set obstacles) w h start - ({start} - set [start])))"
    by (rule flood_loop_card) (simp_all add: reach_start nbr_closed_def)
  then show ?thesis by (simp add: flood_fill_count_def)
qed

lemma step_back:
  assumes "(m, d) \<in> set MOVES"
  shows "\<exists>m' d'. (m', d') \<in> set MOVES \<and> nbr (nbr c (m, d)) (m', d') = c"
proof -
  from assms consider "(m, d) = (UP, (0, -1))" | "(m, d) = (DOWN, (0, 1))"
    | "(m, d) = (LEFT, (-1, 0))" | "(m, d) = (RIGHT, (1, 0))"
    by (auto simp add: MOVES_def)
  then show ?thesis
  proof cases
    case 1
    then have "(DOWN, (0, 1)) \<in> set MOVES \<and> nbr (nbr c (m, d)) (DOWN, (0, 1)) = c"
      by (simp add: MOVES_def nbr_def)
    then show ?thesis by blast
  next
    case 2
    then have "(UP, (0, -1)) \<in> set MOVES \<and> nbr (nbr c (m, d)) (UP, (0, -1)) = c"
      by (simp add: MOVES_def nbr_def)
    then show ?thesis by blast
  next
    case 3
    then have "(RIGHT, (1, 0)) \<in> set MOVES \<and> nbr (nbr c (m, d)) (RIGHT, (1, 0)) = c"
      by (simp add: MOVES_def nbr_def)
    then show ?thesis by blast
  next
    case 4
    then have "(LEFT, (-1, 0)) \<in> set MOVES \<and> nbr (nbr c (m, d)) (LEFT, (-1, 0)) = c"
      by (simp add: MOVES_def nbr_def)
    then show ?thesis by blast
  qed
qed

lemma walk_back:
  "passable obs_set w h c \<Longrightarrow> walk obs_set w h c path = Some c' \<Longrightarrow>
     \<exists>path'. walk obs_set w h c' path' = Some c"
proof (induction path arbitrary: c)
  case Nil
  then have "walk obs_set w h c' [] = Some c" by simp
  then show ?case by blast
next
  case (Cons m ms)
  from Cons.prems(2) obtain d where d: "map_of MOVES m = Some d"
    and p: "passable obs_set w h (nbr c (m, d))"
    and rest: "walk obs_set w h (nbr c (m, d)) ms = Some c'"
    by (auto split: option.splits if_splits)
  from Cons.IH [OF p rest] obtain path' where
    ret: "walk obs_set w h c' path' = Some (nbr c (m, d))" by blast
  from step_back [OF MOVES_member [OF d]] obtain m' d' where
    m': "(m', d') \<in> set MOVES" "nbr (nbr c (m, d)) (m', d') = c" by blast
  have "walk obs_set w h c' (path' @ [m']) = Some (nbr (nbr c (m, d)) (m', d'))"
    using ret m' Cons.prems(1) by (intro walk_snoc) simp_all
  with m'(2) show ?case by auto
qed

lemma reach_trans:
  assumes "b \<in> reach obs_set w h a"
  shows "reach obs_set w h b \<subseteq> reach obs_set w h a"
proof
  fix c assume "c \<in> reach obs_set w h b"
  then obtain p2 where p2: "walk obs_set w h b p2 = Some c" by (auto simp add: reach_def)
  from assms obtain p1 where p1: "walk obs_set w h a p1 = Some b" by (auto simp add: reach_def)
  have "walk obs_set w h a (p1 @ p2) = Some c"
    using p1 p2 by (simp add: walk_append)
  then show "c \<in> reach obs_set w h a" unfolding reach_def by blast
qed

lemma reach_same_component:
  assumes "passable obs_set w h a" "walk obs_set w h a path = Some b"
  shows "reach obs_set w h a = reach obs_set w h b"
proof
  have "b \<in> reach obs_set w h a" using assms(2) unfolding reach_def by blast
  then show "reach obs_set w h b \<subseteq> reach obs_set w h a" by (rule reach_trans)
  from walk_back [OF assms] have "a \<in> reach obs_set w h b" unfolding reach_def by blast
  then show "reach obs_set w h a \<subseteq> reach obs_set w h b" by (rule reach_trans)
qed

subsection \<open>Breadth-first search on the obstacle-free grid\<close>

definition manhattan :: "pos \<Rightarrow> pos \<Rightarrow> int" where
  "manhattan a b = \<bar>fst a - fst b\<bar> + \<bar>snd a - snd b\<bar>"

lemma manhattan_nbr:
  "md \<in> set MOVES \<Longrightarrow> \<bar>manhattan (nbr c md) g - manhattan c g\<bar> = 1"
  by (auto simp add: MOVES_def nbr_def manhattan_def)

lemma manhattan_nbr_from:
  "md \<in> set MOVES \<Longrightarrow> \<bar>manhattan s (nbr c md) - manhattan s c\<bar> = 1"
  by (auto simp add: MOVES_def nbr_def manhattan_def)

lemma manhattan_pred:
  assumes "s \<in> grid w h" "x \<in> grid w h" "x \<noteq> s"
  shows "\<exists>x' \<in> grid w h. \<exists>md \<in> set MOVES. nbr x' md = x \<and> manhattan s x' + 1 = manhattan s x"
proof -
  obtain sx sy where s: "s = (sx, sy)" by (cases s)
  obtain xx xy where x: "x = (xx, xy)" by (cases x)
  from assms(3) consider "sx < xx" | "xx < sx" | "xx = sx" "sy < xy" | "xx = sx" "xy < sy"
    unfolding s x by force
  then show ?thesis
  proof cases
    case 1
    then have "(xx - 1, xy) \<in> grid w h \<and> (RIGHT, (1, 0)) \<in> set MOVES
        \<and> nbr (xx - 1, xy) (RIGHT, (1, 0)) = x
        \<and> manhattan s (xx - 1, xy) + 1 = manhattan s x"
      using assms(1,2) unfolding s x by (auto simp add: grid_def MOVES_def nbr_def manhattan_def)
    then show ?thesis by blast
  next
    case 2
    then have "(xx + 1, xy) \<in> grid w h \<and> (LEFT, (-1, 0)) \<in> set MOVES
        \<and> nbr (xx + 1, xy) (LEFT, (-1, 0)) = x
        \<and> manhattan s (xx + 1, xy) + 1 = manhattan s x"
      using assms(1,2) unfolding s x by (auto simp add: grid_def MOVES_def nbr_def manhattan_def)
    then show ?thesis by blast
  next
    case 3
    then have "(xx, xy - 1) \<in> grid w h \<and> (DOWN, (0, 1)) \<in> set MOVES
        \<and> nbr (xx, xy - 1) (DOWN, (0, 1)) = x
        \<and> manhattan s (xx, xy - 1) + 1 = manhattan s x"
      using assms(1,2) unfolding s x by (auto simp add: grid_def MOVES_def nbr_def manhattan_def)
    then show ?thesis by blast
  next
    case 4
    then have "(xx, xy + 1) \<in> grid w h \<and> (UP, (0, -1)) \<in> set MOVES
        \<and> nbr (xx, xy + 1) (UP, (0, -1)) = x
        \<and> manhattan s (xx, xy + 1) + 1 = manhattan s x"
      using assms(1,2) unfolding s x by (auto simp add: grid_def MOVES_def nbr_def manhattan_def)
    then show ?thesis by blast
  qed
qed

lemma walk_manhattan:
  "walk obs_set w h c path = Some c' \<Longrightarrow> manhattan c c' \<le> int (length path)"
proof (induction path arbitrary: c)
  case Nil
  then show ?case by (simp add: manhattan_def)
next
  case (Cons m ms)
  from Cons.prems obtain d where d: "map_of MOVES m = Some d"
    and rest: "walk obs_set w h (nbr c (m, d)) ms = Some c'"
    by (auto split: option.splits if_splits)
  have "\<bar>manhattan (nbr c (m, d)) c' - manhattan c c'\<bar> = 1"
    using MOVES_member [OF d] by (rule manhattan_nbr)
  with Cons.IH [OF rest] show ?case by simp
qed

text \<open>
  On a grid without obstacles a set of cells that holds the start and is closed under
  stepping to a neighbour inside the grid is the whole grid.
\<close>

lemma closed_covers_grid:
  assumes cl: "nbr_closed {} w h V V" and s: "s \<in> V" "s \<in> grid w h"
  shows "x \<in> grid w h \<Longrightarrow> manhattan s x = int k \<Longrightarrow> x \<in> V"
proof (induction k arbitrary: x)
  case 0
  then have "x = s" by (auto simp add: manhattan_def prod_eq_iff)
  with s show ?case by simp
next
  case (Suc k)
  then have "x \<noteq> s" by (auto simp add: manhattan_def)
  from manhattan_pred [OF s(2) Suc.prems(1) this] obtain x' md where
    x': "x' \<in> grid w h" "md \<in> set MOVES" "nbr x' md = x" "manhattan s x' + 1 = manhattan s x"
    by blast
  then have "manhattan s x' = int k" using Suc.prems(2) by simp
  from Suc.IH [OF x'(1) this] have "x' \<in> V" .
  moreover have "passable {} w h (nbr x' md)"
    using x'(3) Suc.prems(1) by (simp add: passable_def)
  ultimately show ?case
    using cl x'(2,3) by (auto simp add: nbr_closed_def)
qed

lemma manhattan_nonneg: "0 \<le> manhattan a b"
  by (simp add: manhattan_def)

text \<open>
  The invariant of the \<^verbatim>\<open>while q\<close> loop of \<^verbatim>\<open>bfs_path\<close> on the obstacle-free grid:
  every queued path is a walk to its cell of Manhattan length, the queue is ordered by
  path length and spans at most two lengths, every cell no farther than the front entry
  is visited, the cells already expanded have all their grid neighbours visited, and
  the goal has not been expanded.
\<close>

definition bfs_inv :: "int \<Rightarrow> int \<Rightarrow> pos \<Rightarrow> pos \<Rightarrow> (pos \<times> move list) list \<Rightarrow> pos set \<Rightarrow> bool" where
  "bfs_inv w h start goal q visited \<longleftrightarrow>
     (\<forall>e \<in> set q. walk {} w h start (snd e) = Some (fst e)
        \<and> int (length (snd e)) = manhattan start (fst e)) \<and>
     sorted (map (\<lambda>e. length (snd e)) q) \<and>
     (\<forall>e \<in> set q. length (snd e) \<le> length (snd (hd q)) + 1) \<and>
     (q \<noteq> [] \<longrightarrow>
        (\<forall>x \<in> grid w h. manhattan start x \<le> int (length (snd (hd q))) \<longrightarrow> x \<in> visited)) \<and>
     nbr_closed {} w h (visited - fst ` set q) visited \<and>
     fst ` set q \<subseteq> visited \<and> start \<in> visited \<and>
     (goal \<in> visited \<longrightarrow> goal \<in> fst ` set q)"

lemma sorted_const: "\<forall>x \<in> set xs. x = (k::nat) \<Longrightarrow> sorted xs"
  by (induction xs) auto

lemma bfs_inv_step:
  assumes inv: "bfs_inv w h start goal ((c, p) # q) visited"
    and sg: "start \<in> grid w h" and ng: "c \<noteq> goal"
  defines "new \<equiv> fresh {} w h c MOVES visited"
  defines "q' \<equiv> q @ map (\<lambda>(m, n). (n, p @ [m])) new"
  defines "v' \<equiv> visited \<union> snd ` set new"
  shows "bfs_inv w h start goal q' v'"
proof -
  let ?L = "length p"
  have c: "walk {} w h start p = Some c" "int ?L = manhattan start c"
    and old: "\<forall>e \<in> set q. walk {} w h start (snd e) = Some (fst e)
        \<and> int (length (snd e)) = manhattan start (fst e)"
    and srt: "sorted (map (\<lambda>e. length (snd e)) q)"
    and ge: "\<forall>e \<in> set q. ?L \<le> length (snd e)"
    and le: "\<forall>e \<in> set q. length (snd e) \<le> ?L + 1"
    and cov: "\<forall>x \<in> grid w h. manhattan start x \<le> int ?L \<longrightarrow> x \<in> visited"
    and cl: "nbr_closed {} w h (visited - insert c (fst ` set q)) visited"
    and sub: "c \<in> visited" "fst ` set q \<subseteq> visited" "start \<in> visited"
    and gl: "goal \<in> visited \<longrightarrow> goal \<in> fst ` set q"
    using inv ng by (auto simp add: bfs_inv_def)
  have N: "snd ` set new = {n \<in> nbr c ` set MOVES. passable {} w h n} - visited"
    unfolding new_def by (rule fresh_set)
  have cells: "fst ` set q' = fst ` set q \<union> snd ` set new"
    unfolding q'_def by (force simp add: image_Un)
  have new_entry: "walk {} w h start (p @ [m]) = Some n \<and> int (length (p @ [m])) = manhattan start n
      \<and> length (p @ [m]) = ?L + 1"
    if mn: "(m, n) \<in> set new" for m n
  proof -
    from fresh_move [OF mn [unfolded new_def]] obtain d where
      d: "(m, d) \<in> set MOVES" "n = nbr c (m, d)" "passable {} w h n" "n \<notin> visited"
      by blast
    have "n \<in> grid w h" using d(3) by (simp add: passable_def)
    with cov d(4) have far: "int ?L < manhattan start n" by force
    have "\<bar>manhattan start n - manhattan start c\<bar> = 1"
      unfolding d(2) using d(1) by (rule manhattan_nbr_from)
    with far c(2) have "manhattan start n = int ?L + 1" by linarith
    moreover have "walk {} w h start (p @ [m]) = Some n"
      using fresh_walk [OF c(1)] mn unfolding new_def by blast
    ultimately show ?thesis by simp
  qed
  have all: "\<forall>e \<in> set q'. walk {} w h start (snd e) = Some (fst e)
        \<and> int (length (snd e)) = manhattan start (fst e)"
    using old new_entry unfolding q'_def by auto
  have new_len: "\<forall>e \<in> set (map (\<lambda>(m, n). (n, p @ [m])) new). length (snd e) = ?L + 1"
    by auto
  have srt': "sorted (map (\<lambda>e. length (snd e)) q')"
  proof -
    have "sorted (map (\<lambda>e. length (snd e)) (map (\<lambda>(m, n). (n, p @ [m])) new))"
      by (rule sorted_const [where k = "?L + 1"]) auto
    then show ?thesis
      unfolding q'_def using srt le new_len by (auto simp add: sorted_append)
  qed
  have ge': "\<forall>e \<in> set q'. ?L \<le> length (snd e)"
    unfolding q'_def using ge by auto
  have le': "\<forall>e \<in> set q'. length (snd e) \<le> ?L + 1"
    unfolding q'_def using le by auto
  have hd_min: "\<forall>e \<in> set q'. length (snd (hd q')) \<le> length (snd e)" if "q' \<noteq> []"
  proof -
    from that obtain e0 es where q'eq: "q' = e0 # es" by (cases q') auto
    with srt' show ?thesis by auto
  qed
  have bound': "\<forall>e \<in> set q'. length (snd e) \<le> length (snd (hd q')) + 1"
  proof
    fix e assume e: "e \<in> set q'"
    then have "q' \<noteq> []" by auto
    then have "hd q' \<in> set q'" by simp
    with ge' have "?L \<le> length (snd (hd q'))" by blast
    with le' e show "length (snd e) \<le> length (snd (hd q')) + 1" by force
  qed
  have done_sub: "v' - fst ` set q' \<subseteq> insert c (visited - insert c (fst ` set q))"
    unfolding v'_def cells by auto
  have cl': "nbr_closed {} w h (v' - fst ` set q') v'"
    unfolding nbr_closed_def
  proof (intro ballI impI)
    fix x md assume x: "x \<in> v' - fst ` set q'" and md: "md \<in> set MOVES"
      and ps: "passable {} w h (nbr x md)"
    from x done_sub consider "x = c" | "x \<in> visited - insert c (fst ` set q)" by blast
    then show "nbr x md \<in> v'"
    proof cases
      case 1
      then show ?thesis unfolding v'_def N using md ps by auto
    next
      case 2
      with cl md ps have "nbr x md \<in> visited" by (auto simp add: nbr_closed_def)
      then show ?thesis unfolding v'_def by simp
    qed
  qed
  have cov': "\<forall>x \<in> grid w h. manhattan start x \<le> int (length (snd (hd q'))) \<longrightarrow> x \<in> v'"
    if ne: "q' \<noteq> []"
  proof (intro ballI impI)
    fix x assume x: "x \<in> grid w h" and near: "manhattan start x \<le> int (length (snd (hd q')))"
    have hd_in: "hd q' \<in> set q'" using ne by simp
    show "x \<in> v'"
    proof (cases "manhattan start x \<le> int ?L")
      case True
      with cov x show ?thesis unfolding v'_def by simp
    next
      case False
      with near le' hd_in have hdL: "length (snd (hd q')) = ?L + 1" and mx: "manhattan start x = int ?L + 1"
        by force+
      have "x \<noteq> start" using mx by (auto simp add: manhattan_def)
      from manhattan_pred [OF sg x this] obtain x' md where
        x': "x' \<in> grid w h" "md \<in> set MOVES" "nbr x' md = x" "manhattan start x' + 1 = manhattan start x"
        by blast
      then have mx': "manhattan start x' = int ?L" using mx by simp
      with cov x'(1) have "x' \<in> visited" by simp
      moreover have "x' \<notin> fst ` set q'"
      proof
        assume "x' \<in> fst ` set q'"
        then obtain e where e: "e \<in> set q'" "fst e = x'" by auto
        with all mx' have "length (snd e) = ?L" by force
        with hd_min [OF ne] e(1) hdL show False by force
      qed
      ultimately have "x' \<in> v' - fst ` set q'" unfolding v'_def by simp
      moreover have "passable {} w h (nbr x' md)"
        using x'(3) x by (simp add: passable_def)
      ultimately show ?thesis
        using cl' x'(2,3) by (auto simp add: nbr_closed_def)
    qed
  qed
  have sub': "fst ` set q' \<subseteq> v'" "start \<in> v'"
    unfolding cells v'_def using sub by auto
  have gl': "goal \<in> v' \<longrightarrow> goal \<in> fst ` set q'"
    unfolding cells v'_def using gl by auto
  show ?thesis
    unfolding bfs_inv_def using all srt' bound' cov' cl' sub' gl' by blast
qed

lemma bfs_loop_complete:
  "obs_set = {} \<Longrightarrow> bfs_inv w h start goal q visited \<Longrightarrow> start \<in> grid w h \<Longrightarrow>
   goal \<in> grid w h \<Longrightarrow>
   \<exists>p. bfs_loop goal obs_set w h q visited = Some p \<and> walk {} w h start p = Some goal
     \<and> int (length p) = manhattan start goal"
proof (induction goal obs_set w h q visited rule: bfs_loop.induct)
  case (1 goal obs_set w h visited)
  have "nbr_closed {} w h visited visited" "start \<in> visited" "goal \<notin> visited"
    using "1.prems"(2) by (auto simp add: bfs_inv_def)
  moreover obtain k where "manhattan start goal = int k"
    using manhattan_nonneg [of start goal] by (metis nonneg_int_cases)
  ultimately show ?case
    using closed_covers_grid [OF _ _ "1.prems"(3,4)] by blast
next
  case (2 goal obs_set w h c path q visited)
  show ?case
  proof (cases "c = goal")
    case True
    then show ?thesis using "2.prems"(2) by (simp add: bfs_inv_def)
  next
    case False
    let ?new = "fresh {} w h c MOVES visited"
    let ?q' = "q @ map (\<lambda>(m, n). (n, path @ [m])) ?new"
    let ?v' = "visited \<union> snd ` set ?new"
    have fold_eq: "fold (bfs_visit obs_set w h c path) MOVES (q, visited) = (?q', ?v')"
      unfolding "2.prems"(1) by (rule fold_bfs_visit)
    have "bfs_inv w h start goal ?q' ?v'"
      using "2.prems"(2,3) False by (rule bfs_inv_step)
    from "2.IH" [OF False fold_eq [symmetric] "2.prems"(1) this "2.prems"(3,4)]
    show ?thesis using False by (simp add: fold_eq)
  qed
qed

lemma bfs_search_complete:
  assumes "start \<in> grid w h" "goal \<in> grid w h"
  shows "\<exists>p. bfs_search start goal [] w h = Some p \<and> walk {} w h start p = Some goal
     \<and> int (length p) = manhattan start goal"
proof -
  have "bfs_inv w h start goal [(start, [])] {start}"
    by (auto simp add: bfs_inv_def nbr_closed_def manhattan_def prod_eq_iff)
  from bfs_loop_complete [OF _ this assms, of "{}"] show ?thesis
    by (simp add: bfs_search_def)
qed

section \<open>Properties of the path planner\<close>

text \<open>
  C6. On a grid without obstacles, for every start and goal inside the grid with the
  start distinct from the goal, \<^verbatim>\<open>bfs_path\<close> returns the first move of the path at which
  its loop stops; that path has exactly the Manhattan distance as its length, and the
  cell the first move leads to is strictly nearer to the goal (in Manhattan distance)
  than the start. In particular on the empty 20x20 grid from (10,10) to (15,10) the
  returned move is \<^verbatim>\<open>RIGHT\<close> and the path has five moves.
\<close>

theorem bfs_path_empty_grid_progress:
  "(start \<in> grid w h \<and> goal \<in> grid w h \<and> start \<noteq> goal \<longrightarrow>
      (\<exists>m d rest. bfs_search start goal [] w h = Some (m # rest)
         \<and> bfs_path start goal [] w h = Some m
         \<and> int (length (m # rest)) = manhattan start goal
         \<and> map_of MOVES m = Some d
         \<and> manhattan (nbr start (m, d)) goal < manhattan start goal))
   \<and> (\<exists>rest. bfs_search (10, 10) (15, 10) [] 20 20 = Some (RIGHT # rest) \<and> length rest = 4)
   \<and> bfs_path (10, 10) (15, 10) [] 20 20 = Some RIGHT"
proof -
  have general: "\<exists>m d rest. bfs_search start goal [] w h = Some (m # rest)
         \<and> bfs_path start goal [] w h = Some m
         \<and> int (length (m # rest)) = manhattan start goal
         \<and> map_of MOVES m = Some d
         \<and> manhattan (nbr start (m, d)) goal < manhattan start goal"
    if sg: "start \<in> grid w h" "goal \<in> grid w h" and ne: "start \<noteq> goal"
    for start goal :: pos and w h :: int
  proof -
    from bfs_search_complete [OF sg] obtain p where
      p: "bfs_search start goal [] w h = Some p" "walk {} w h start p = Some goal"
        "int (length p) = manhattan start goal"
      by blast
    from ne p(2) obtain m rest where mr: "p = m # rest" by (cases p) auto
    from p(2) obtain d where d: "map_of MOVES m = Some d"
      and rest: "walk {} w h (nbr start (m, d)) rest = Some goal"
      unfolding mr by (auto split: option.splits if_splits)
    have "manhattan (nbr start (m, d)) goal \<le> int (length rest)"
      using rest by (rule walk_manhattan)
    then have "manhattan (nbr start (m, d)) goal < manhattan start goal"
      using p(3) unfolding mr by simp
    moreover have "bfs_path start goal [] w h = Some m"
      using p(1) unfolding mr by (simp add: bfs_path_def)
    ultimately show ?thesis using p(1,3) d unfolding mr by blast
  qed
  have "(10, 10) \<in> grid 20 20" "(15, 10) \<in> grid 20 20" "(10, 10) \<noteq> ((15, 10) :: pos)"
    by (simp_all add: grid_def)
  from general [OF this] obtain m d rest where
    c: "bfs_search (10, 10) (15, 10) [] 20 20 = Some (m # rest)"
      "bfs_path (10, 10) (15, 10) [] 20 20 = Some m"
      "int (length (m # rest)) = manhattan (10, 10) (15, 10)"
      "map_of MOVES m = Some d"
      "manhattan (nbr (10, 10) (m, d)) (15, 10) < manhattan (10, 10) (15, 10)"
    by blast
  from c(4,5) have "m = RIGHT"
    by (cases m) (auto simp add: MOVES_def nbr_def manhattan_def)
  moreover from c(3) have "length rest = 4"
    by (simp add: manhattan_def)
  ultimately have "(\<exists>rest. bfs_search (10, 10) (15, 10) [] 20 20 = Some (RIGHT # rest) \<and> length rest = 4)
      \<and> bfs_path (10, 10) (15, 10) [] 20 20 = Some RIGHT"
    using c(1,2) by blast
  with general show ?thesis by blast
qed

theorem bfs_path_empty_grid_progress_witness:
  "(0, 0) \<in> grid 3 3 \<and> (2, 1) \<in> grid 3 3 \<and> (0, 0) \<noteq> ((2, 1) :: pos) \<and>
   (\<exists>m d rest. bfs_search (0, 0) (2, 1) [] 3 3 = Some (m # rest)
      \<and> bfs_path (0, 0) (2, 1) [] 3 3 = Some m
      \<and> int (length (m # rest)) = manhattan (0, 0) (2, 1)
      \<and> map_of MOVES m = Some d
      \<and> manhattan (nbr (0, 0) (m, d)) (2, 1) < manhattan (0, 0) (2, 1))"
proof -
  have h: "(0, 0) \<in> grid 3 3 \<and> (2, 1) \<in> grid 3 3 \<and> (0, 0) \<noteq> ((2, 1) :: pos)"
    by (simp add: grid_def)
  with bfs_path_empty_grid_progress [of "(0, 0)" 3 3 "(2, 1)"] show ?thesis by blast
qed

text \<open>
  C8. For every obstacle list, a free cell \<open>a\<close> of the grid and a cell \<open>b\<close> that a walk
  through free cells joins to \<open>a\<close> (the two lie in one 4-connected component of the free
  region), \<^verbatim>\<open>flood_fill_count\<close> started from \<open>a\<close> and started from \<open>b\<close> return the same
  count, the number of cells of that component.
\<close>

theorem flood_fill_count_same_component:
  "passable (set obstacles) w h a \<Longrightarrow> walk (set obstacles) w h a path = Some b \<Longrightarrow>
     flood_fill_count a obstacles w h = flood_fill_count b obstacles w h
     \<and> flood_fill_count a obstacles w h = int (card (reach (set obstacles) w h a))"
  using reach_same_component [of "set obstacles" w h a path b]
  by (simp add: flood_fill_count_reach)

theorem flood_fill_count_same_component_witness:
  "passable (set [(1, 1)]) 3 3 (0, 0)
   \<and> walk (set [(1, 1)]) 3 3 (0, 0) [RIGHT, RIGHT, DOWN, DOWN] = Some (2, 2)
   \<and> flood_fill_count (0, 0) [(1, 1)] 3 3 = flood_fill_count (2, 2) [(1, 1)] 3 3
   \<and> flood_fill_count (0, 0) [(1, 1)] 3 3 = 8"
proof -
  have p: "passable (set [(1, 1)]) 3 3 (0, 0)"
    by (simp add: passable_def grid_def)
  have wk: "walk (set [(1, 1)]) 3 3 (0, 0) [RIGHT, RIGHT, DOWN, DOWN] = Some (2, 2)"
    by (simp add: passable_def grid_def MOVES_def nbr_def)
  have v: "flood_fill_count (0, 0) [(1, 1)] 3 3 = 8"
    by (simp add: flood_fill_count_def MOVES_def)
  from flood_fill_count_same_component [OF p wk] p wk v show ?thesis by simp
qed

text \<open>
  C10. For every obstacle list and grid size, \<^verbatim>\<open>bfs_path\<close> called with the goal equal to
  the start stops at the first entry with the empty path and returns \<open>None\<close>; it also
  returns \<open>None\<close> for every goal that no walk from the start reaches. The two cases give
  the caller the same value.
\<close>

theorem bfs_path_start_is_goal:
  "bfs_search start start obstacles w h = Some []
   \<and> bfs_path start start obstacles w h = None
   \<and> ((\<forall>path. walk (set obstacles) w h start path \<noteq> Some goal) \<longrightarrow>
        bfs_path start goal obstacles w h = None)"
proof -
  have "bfs_path start goal obstacles w h = None"
    if unreachable: "\<forall>path. walk (set obstacles) w h start path \<noteq> Some goal"
  proof (cases "bfs_search start goal obstacles w h")
    case None
    then show ?thesis by (simp add: bfs_path_def)
  next
    case (Some p)
    from bfs_search_sound [OF this] unreachable show ?thesis by simp
  qed
  then show ?thesis by (simp add: bfs_search_same bfs_path_def)
qed

theorem bfs_path_start_is_goal_witness:
  "bfs_path (0, 0) (0, 0) [(1, 0)] 3 1 = None
   \<and> (\<forall>path. walk (set [(1, 0)]) 3 1 (0, 0) path \<noteq> Some (2, 0))
   \<and> bfs_path (0, 0) (2, 0) [(1, 0)] 3 1 = None"
proof -
  have cl: "nbr_closed (set [(1, 0)]) 3 1 {(0, 0)} {(0, 0)}"
    by (simp add: nbr_closed_def MOVES_def nbr_def passable_def grid_def)
  have un: "\<forall>path. walk (set [(1, 0)]) 3 1 (0, 0) path \<noteq> Some (2, 0)"
  proof (intro allI notI)
    fix path assume "walk (set [(1, 0)]) 3 1 (0, 0) path = Some (2, 0)"
    from walk_closed [OF cl _ this] show False by simp
  qed
  with bfs_path_start_is_goal [of "(0, 0)" "[(1, 0)]" 3 1 "(2, 0)"] show ?thesis by blast
qed

section \<open>Risk assessment (StructGate) and threshold pricing\<close>

subsection \<open>Configuration constants\<close>

text \<open>Class \<^verbatim>\<open>Config\<close> of Snake-SHM v0.3.2.\<close>

definition Config_MAX_STEPS_WITHOUT_FOOD :: int where
  "Config_MAX_STEPS_WITHOUT_FOOD = 200"

definition Config_W_TOPO :: real where
  "Config_W_TOPO = 0.7"

definition Config_W_GEOM :: real where
  "Config_W_GEOM = 0.3"

definition Config_SVD_ENTROPY_SCALE :: real where
  "Config_SVD_ENTROPY_SCALE = 5.0"

definition Config_RISK_THRESHOLD_BASE :: real where
  "Config_RISK_THRESHOLD_BASE = 0.35"

definition Config_RISK_HUNGER_GAIN :: real where
  "Config_RISK_HUNGER_GAIN = 0.50"

definition Config_RESCUE_WINDOW :: int where
  "Config_RESCUE_WINDOW = 20"

text \<open>Class \<^verbatim>\<open>Cfg\<close> of Vacuum-X v0.3.\<close>

definition Cfg_BATTERY_MAX :: int where
  "Cfg_BATTERY_MAX = 60"

definition Cfg_LOW_BAT_BASE :: real where
  "Cfg_LOW_BAT_BASE = 20"

definition Cfg_PANIC_TH_BASE :: real where
  "Cfg_PANIC_TH_BASE = 0.80"

definition Cfg_ESCAPE_STEPS :: int where
  "Cfg_ESCAPE_STEPS = 4"

definition Cfg_COOLDOWN_STEPS :: int where
  "Cfg_COOLDOWN_STEPS = 6"

definition Cfg_SVD_WINDOW :: nat where
  "Cfg_SVD_WINDOW = 10"

definition Cfg_SVD_GAIN :: real where
  "Cfg_SVD_GAIN = 5.0"

definition Cfg_LPI_RHO :: real where
  "Cfg_LPI_RHO = 0.75"

definition Cfg_DAMAGE_GAIN :: real where
  "Cfg_DAMAGE_GAIN = 2.0"

definition Cfg_STEP_DECAY :: real where
  "Cfg_STEP_DECAY = 0.001"

definition Cfg_COLLAPSE_DECAY :: real where
  "Cfg_COLLAPSE_DECAY = 0.04"

definition Cfg_RECOVERY_GAIN :: real where
  "Cfg_RECOVERY_GAIN = 0.06"

definition Cfg_HUNGER_GAIN_BAT :: real where
  "Cfg_HUNGER_GAIN_BAT = 20.0"

definition Cfg_HUNGER_GAIN_PANIC :: real where
  "Cfg_HUNGER_GAIN_PANIC = 0.40"

definition Cfg_BAT_PRESSURE_GAIN :: real where
  "Cfg_BAT_PRESSURE_GAIN = 0.25"

definition Cfg_RESCUE_WINDOW :: int where
  "Cfg_RESCUE_WINDOW = 12"

definition Cfg_LOCAL_REACH_DEPTH :: nat where
  "Cfg_LOCAL_REACH_DEPTH = 30"

text \<open>Module constants of the Vacuum-X Coase frontier probe.\<close>

definition MAX_STEPS :: int where
  "MAX_STEPS = 2000"

definition SVD_WINDOW :: nat where
  "SVD_WINDOW = 10"

definition RESCUE_WINDOW :: int where
  "RESCUE_WINDOW = 12"

definition BASE_PANIC_TH :: real where
  "BASE_PANIC_TH = 0.8"

definition BASE_LOW_BAT :: real where
  "BASE_LOW_BAT = 20"

definition BAT_MAX :: int where
  "BAT_MAX = 60"

definition GAIN_PANIC :: real where
  "GAIN_PANIC = 0.4"

definition GAIN_BAT :: real where
  "GAIN_BAT = 20.0"

definition GAIN_BAT_PRESSURE :: real where
  "GAIN_BAT_PRESSURE = 0.25"

definition LPI_RHO :: real where
  "LPI_RHO = 0.75"

subsection \<open>Numeric helpers\<close>

text \<open>
  Python floats are modelled as real numbers: rounding is not part of the model.
  \<^verbatim>\<open>np.clip(x, lo, hi)\<close> is the minimum of \<open>hi\<close> and the maximum of \<open>x\<close> and \<open>lo\<close>.
\<close>

definition clip :: "real \<Rightarrow> real \<Rightarrow> real \<Rightarrow> real" where
  "clip x lo hi = min (max x lo) hi"

text \<open>
  \<^verbatim>\<open>pts = np.array(body); pts = pts - np.mean(pts, axis=0)\<close>: the points with the mean
  of each column subtracted.
\<close>

definition col_mean :: "real list \<Rightarrow> real" where
  "col_mean xs = sum_list xs / real (length xs)"

definition centred :: "pos list \<Rightarrow> (real \<times> real) list" where
  "centred body =
     (let xs = map (\<lambda>p. real_of_int (fst p)) body;
          ys = map (\<lambda>p. real_of_int (snd p)) body
      in map (\<lambda>p. (real_of_int (fst p) - col_mean xs, real_of_int (snd p) - col_mean ys)) body)"

text \<open>
  \<^verbatim>\<open>numpy.linalg.svd\<close> is a library routine, not code of the repository. Its result
  \<^verbatim>\<open>s\<close> for a matrix of \<open>n\<close> rows and two columns is modelled by its mathematical
  contract: the singular values, largest first, are the square roots of the eigenvalues
  of the 2x2 Gram matrix \<open>((a, b), (b, c))\<close> of the columns; a single row has one singular
  value. An input that is not a matrix (no rows) makes the routine raise, which is the
  value \<open>None\<close>.
\<close>

definition singular_values :: "(real \<times> real) list \<Rightarrow> real list" where
  "singular_values pts =
     (let a = (\<Sum>p\<leftarrow>pts. fst p * fst p);
          b = (\<Sum>p\<leftarrow>pts. fst p * snd p);
          c = (\<Sum>p\<leftarrow>pts. snd p * snd p);
          r = sqrt ((a - c)\<^sup>2 + 4 * b\<^sup>2)
      in if length pts = 1 then [sqrt (a + c)]
         else [sqrt ((a + c + r) / 2), sqrt ((a + c - r) / 2)])"

definition svd_s :: "(real \<times> real) list \<Rightarrow> real list option" where
  "svd_s pts = (if pts = [] then None else Some (singular_values pts))"

subsection \<open>Snake-SHM v0.3.2: \<^verbatim>\<open>StructGate.analyze_risk\<close>\<close>

definition geom_risk :: "pos list \<Rightarrow> real" where
  "geom_risk snake_body =
     (case svd_s (centred snake_body) of
        None \<Rightarrow> 0.0
      | Some s \<Rightarrow>
          (let entropy = (if length s \<ge> 2 then s ! 1 / (s ! 0 + 1 / 10 ^ 8) else 0.0)
           in clip (1.0 - entropy * Config_SVD_ENTROPY_SCALE) 0.0 1.0))"

definition topo_risk :: "pos list \<Rightarrow> int \<Rightarrow> int \<Rightarrow> real" where
  "topo_risk snake_body w h =
     (let area = flood_fill_count (hd snake_body) snake_body w h
      in clip (1.0 - real_of_int area / real_of_int (max 1 (int (length snake_body)))) 0.0 1.0)"

definition analyze_risk :: "pos list \<Rightarrow> int \<Rightarrow> int \<Rightarrow> real" where
  "analyze_risk snake_body w h =
     (if length snake_body < 3 then 0.0
      else Config_W_TOPO * topo_risk snake_body w h + Config_W_GEOM * geom_risk snake_body)"

subsection \<open>Vacuum-X v0.3: \<^verbatim>\<open>StructGate.panic\<close> over the trajectory window\<close>

text \<open>\<^verbatim>\<open>deque(maxlen=n).append\<close>: the oldest entry is dropped when the window is full.\<close>

definition deque_append :: "nat \<Rightarrow> 'a list \<Rightarrow> 'a \<Rightarrow> 'a list" where
  "deque_append maxlen d x = (if length d < maxlen then d @ [x] else tl d @ [x])"

definition StructGate_panic :: "pos list \<Rightarrow> real" where
  "StructGate_panic hist =
     (if length hist < Cfg_SVD_WINDOW then 0.0
      else case svd_s (centred hist) of
             None \<Rightarrow> 0.0
           | Some s \<Rightarrow>
               if length s < 2 then 0.0
               else (let entropy = s ! 1 / (s ! 0 + 1 / 10 ^ 6);
                         p = 1.0 - min (entropy * Cfg_SVD_GAIN) 1.0
                     in clip p 0.0 1.0))"

subsection \<open>Vacuum-X Coase frontier: \<^verbatim>\<open>StructGate.risk\<close>\<close>

definition StructGate_risk :: "pos list \<Rightarrow> real" where
  "StructGate_risk hist =
     (if length hist < 5 then 0.0
      else case svd_s (centred hist) of
             None \<Rightarrow> 0.0
           | Some s \<Rightarrow>
               if length s < 2 then 0.0
               else (let entropy = s ! 1 / (s ! 0 + 1 / 10 ^ 6)
                     in 1.0 - min (entropy * 5.0) 1.0))"

subsection \<open>Threshold pricing\<close>

text \<open>
  Snake-SHM: the hunger ratio, the threshold of \<^verbatim>\<open>BaseAgent.get_action\<close> and the
  threshold of \<^verbatim>\<open>SweepAgent.get_action\<close> (v0.3.4), where \<open>alpha\<close> scales the gain.
\<close>

definition hunger_ratio :: "int \<Rightarrow> real" where
  "hunger_ratio hunger = min 1.0 (real_of_int hunger / real_of_int Config_MAX_STEPS_WITHOUT_FOOD)"

definition base_threshold :: "int \<Rightarrow> real" where
  "base_threshold hunger = Config_RISK_THRESHOLD_BASE + hunger_ratio hunger * Config_RISK_HUNGER_GAIN"



text \<open>Vacuum-X v0.3: \<^verbatim>\<open>AgentB_StructGate._dynamic_thresholds\<close>.\<close>

definition dynamic_thresholds :: "real \<Rightarrow> int \<Rightarrow> real \<times> real" where
  "dynamic_thresholds lpi battery =
     (let bat_ratio = real_of_int battery / real_of_int Cfg_BATTERY_MAX;
          battery_pressure = 1.0 - bat_ratio;
          panic_th = Cfg_PANIC_TH_BASE - (lpi * Cfg_HUNGER_GAIN_PANIC)
                       - (Cfg_BAT_PRESSURE_GAIN * battery_pressure);
          panic_th = clip panic_th 0.20 0.95;
          bat_th = Cfg_LOW_BAT_BASE + (lpi * Cfg_HUNGER_GAIN_BAT);
          bat_th = clip bat_th 5.0 (real_of_int (Cfg_BATTERY_MAX - 1))
      in (panic_th, bat_th))"

text \<open>Vacuum-X Coase frontier: the two thresholds computed in \<^verbatim>\<open>CoaseAgent.choose\<close>.\<close>

definition frontier_panic_th :: "real \<Rightarrow> real \<Rightarrow> int \<Rightarrow> real" where
  "frontier_panic_th alpha lpi battery =
     (let bat_ratio = 1.0 - real_of_int battery / real_of_int BAT_MAX
      in BASE_PANIC_TH - alpha * GAIN_PANIC * lpi - alpha * GAIN_BAT_PRESSURE * bat_ratio)"

definition frontier_low_bat_th :: "real \<Rightarrow> real \<Rightarrow> real" where
  "frontier_low_bat_th alpha lpi = BASE_LOW_BAT + alpha * GAIN_BAT * lpi"

subsection \<open>Facts about the numeric helpers\<close>

lemma clip_range: "lo \<le> hi \<Longrightarrow> lo \<le> clip x lo hi \<and> clip x lo hi \<le> hi"
  by (simp add: clip_def)

lemma sum_sq_poly:
  "(\<Sum>p\<leftarrow>ps. (fst p * t + snd p)\<^sup>2) =
     (\<Sum>p\<leftarrow>ps. fst p * fst p) * t\<^sup>2 + 2 * (\<Sum>p\<leftarrow>ps. fst p * snd p) * t
       + (\<Sum>p\<leftarrow>ps. snd p * snd p)" for t :: real
  by (induction ps) (simp_all add: power2_eq_square algebra_simps)

lemma sum_sq_nonneg: "0 \<le> (\<Sum>p\<leftarrow>ps. f p * f p)" for f :: "'a \<Rightarrow> real"
  by (induction ps) simp_all

lemma sum_sq_zero:
  "(\<Sum>p\<leftarrow>ps. fst p * fst p) = 0 \<Longrightarrow> (\<Sum>p\<leftarrow>ps. fst p * snd p) = 0"
  for ps :: "(real \<times> real) list"
proof (induction ps)
  case Nil
  then show ?case by simp
next
  case (Cons p ps)
  have "0 \<le> fst p * fst p" by simp
  moreover have "0 \<le> (\<Sum>p\<leftarrow>ps. fst p * fst p)" by (rule sum_sq_nonneg)
  ultimately have "fst p * fst p = 0" "(\<Sum>p\<leftarrow>ps. fst p * fst p) = 0"
    using Cons.prems by (simp_all add: add_nonneg_eq_0_iff)
  with Cons.IH show ?case by simp
qed

text \<open>The Cauchy-Schwarz inequality for the two columns of a point list.\<close>

lemma columns_product_bound:
  "(\<Sum>p\<leftarrow>ps. fst p * snd p)\<^sup>2 \<le> (\<Sum>p\<leftarrow>ps. fst p * fst p) * (\<Sum>p\<leftarrow>ps. snd p * snd p)"
  for ps :: "(real \<times> real) list"
proof -
  let ?a = "\<Sum>p\<leftarrow>ps. fst p * fst p"
  let ?b = "\<Sum>p\<leftarrow>ps. fst p * snd p"
  let ?c = "\<Sum>p\<leftarrow>ps. snd p * snd p"
  show ?thesis
  proof (cases "?a = 0")
    case True
    then have "?b = 0" by (rule sum_sq_zero)
    with True show ?thesis by simp
  next
    case False
    with sum_sq_nonneg [of fst ps] have apos: "0 < ?a" by simp
    have "0 \<le> (\<Sum>p\<leftarrow>ps. (fst p * (- ?b / ?a) + snd p)\<^sup>2)"
      by (rule sum_list_nonneg) auto
    then have "0 \<le> ?a * (- ?b / ?a)\<^sup>2 + 2 * ?b * (- ?b / ?a) + ?c"
      by (simp only: sum_sq_poly)
    also have "\<dots> = ?c - ?b\<^sup>2 / ?a"
      using apos by (simp add: power2_eq_square field_simps)
    finally have "?b\<^sup>2 / ?a \<le> ?c" by simp
    then show ?thesis using apos by (simp add: field_simps)
  qed
qed

lemma singular_values_nonneg: "x \<in> set (singular_values pts) \<Longrightarrow> 0 \<le> x"
proof -
  let ?a = "\<Sum>p\<leftarrow>pts. fst p * fst p"
  let ?b = "\<Sum>p\<leftarrow>pts. fst p * snd p"
  let ?c = "\<Sum>p\<leftarrow>pts. snd p * snd p"
  let ?r = "sqrt ((?a - ?c)\<^sup>2 + 4 * ?b\<^sup>2)"
  assume x: "x \<in> set (singular_values pts)"
  have a: "0 \<le> ?a" and c: "0 \<le> ?c"
    by (rule sum_sq_nonneg)+
  have r: "0 \<le> ?r" by simp
  have "(?a - ?c)\<^sup>2 + 4 * ?b\<^sup>2 \<le> (?a + ?c)\<^sup>2"
    using columns_product_bound [of pts] by (simp add: power2_eq_square algebra_simps)
  then have "?r \<le> sqrt ((?a + ?c)\<^sup>2)"
    by (rule real_sqrt_le_mono)
  then have "?r \<le> ?a + ?c"
    using a c by simp
  with a c r x show ?thesis
    by (auto simp add: singular_values_def Let_def split: if_splits)
qed

lemma singular_values_length: "length (singular_values pts) = (if length pts = 1 then 1 else 2)"
  by (simp add: singular_values_def Let_def)

lemma entropy_nonneg:
  assumes "length (singular_values pts) \<ge> 2" "0 < e"
  shows "0 \<le> singular_values pts ! 1 / (singular_values pts ! 0 + e)"
proof -
  have "singular_values pts ! 1 \<in> set (singular_values pts)"
    "singular_values pts ! 0 \<in> set (singular_values pts)"
    using assms(1) by (auto intro: nth_mem)
  then have "0 \<le> singular_values pts ! 1" "0 \<le> singular_values pts ! 0"
    by (auto dest: singular_values_nonneg)
  with assms(2) show ?thesis by simp
qed

lemma geom_risk_range: "0 \<le> geom_risk body \<and> geom_risk body \<le> 1"
  using clip_range [of 0 1]
  by (auto simp add: geom_risk_def Let_def split: option.splits)

lemma topo_risk_range: "0 \<le> topo_risk body w h \<and> topo_risk body w h \<le> 1"
  using clip_range [of 0 1] by (simp add: topo_risk_def Let_def)

lemma analyze_risk_range: "0 \<le> analyze_risk body w h \<and> analyze_risk body w h \<le> 1"
proof (cases "length body < 3")
  case True
  then show ?thesis by (simp add: analyze_risk_def)
next
  case False
  have t: "0 \<le> topo_risk body w h" "topo_risk body w h \<le> 1"
    using topo_risk_range by simp_all
  have g: "0 \<le> geom_risk body" "geom_risk body \<le> 1"
    using geom_risk_range by simp_all
  have "0 \<le> 0.7 * topo_risk body w h + 0.3 * geom_risk body"
    using t g by simp
  moreover have "0.7 * topo_risk body w h + 0.3 * geom_risk body \<le> 1"
    using t g by simp
  ultimately show ?thesis
    using False by (simp add: analyze_risk_def Config_W_TOPO_def Config_W_GEOM_def)
qed

lemma StructGate_panic_range: "0 \<le> StructGate_panic hist \<and> StructGate_panic hist \<le> 1"
  using clip_range [of 0 1]
  by (auto simp add: StructGate_panic_def Let_def split: option.splits)

lemma StructGate_risk_range: "0 \<le> StructGate_risk hist \<and> StructGate_risk hist \<le> 1"
proof (cases "length hist < 5")
  case True
  then show ?thesis by (simp add: StructGate_risk_def)
next
  case False
  then have ne: "centred hist \<noteq> []" by (auto simp add: centred_def Let_def)
  have len: "length (singular_values (centred hist)) \<ge> 2"
    using False by (simp add: singular_values_length centred_def Let_def)
  let ?e = "singular_values (centred hist) ! 1 / (singular_values (centred hist) ! 0 + 1 / 10 ^ 6)"
  have "0 \<le> ?e" using len by (rule entropy_nonneg) simp
  then have "0 \<le> ?e * 5" by (rule mult_nonneg_nonneg) simp
  then have "0 \<le> min (?e * 5) 1" "min (?e * 5) 1 \<le> 1" by (simp_all del: times_divide_eq_left)
  then have "0 \<le> 1 - min (?e * 5) 1 \<and> 1 - min (?e * 5) 1 \<le> 1" by simp
  then show ?thesis
    using False ne len by (simp add: StructGate_risk_def svd_s_def Let_def)
qed

section \<open>Properties of the risk assessor and the thresholds\<close>








text \<open>
  C5 (as the code has it). Every risk score lies in [0, 1]. The score is 0 while the
  trajectory is short: fewer than 3 body cells in \<^verbatim>\<open>analyze_risk\<close> (Snake-SHM), a window
  that is not yet full in \<^verbatim>\<open>StructGate.panic\<close> (Vacuum-X v0.3), and fewer than 5 points
  in \<^verbatim>\<open>StructGate.risk\<close> of the frontier probe, whose window holds 10.
\<close>

theorem risk_scores_range_and_zero:
  "0 \<le> analyze_risk body w h \<and> analyze_risk body w h \<le> 1
   \<and> (length body < 3 \<longrightarrow> analyze_risk body w h = 0)
   \<and> 0 \<le> StructGate_panic hist \<and> StructGate_panic hist \<le> 1
   \<and> (length hist < Cfg_SVD_WINDOW \<longrightarrow> StructGate_panic hist = 0)
   \<and> 0 \<le> StructGate_risk hist \<and> StructGate_risk hist \<le> 1
   \<and> (length hist < 5 \<longrightarrow> StructGate_risk hist = 0)"
  using analyze_risk_range [of body w h] StructGate_panic_range [of hist]
    StructGate_risk_range [of hist]
  by (simp add: analyze_risk_def StructGate_panic_def StructGate_risk_def)

theorem risk_scores_range_and_zero_witness:
  "length [(0, 0), (1, 0 :: int)] < 3 \<and> analyze_risk [(0, 0), (1, 0)] 20 20 = 0
   \<and> length [(0, 0 :: int)] < Cfg_SVD_WINDOW \<and> StructGate_panic [(0, 0)] = 0
   \<and> length [(0, 0 :: int)] < 5 \<and> StructGate_risk [(0, 0)] = 0"
  using risk_scores_range_and_zero [of "[(0, 0), (1, 0)]" 20 20 "[(0, 0)]"]
  by (simp add: Cfg_SVD_WINDOW_def)

theorem frontier_risk_before_full_window_counterexample:
  "length [(0, 0), (0, 0), (0, 0), (0, 0), (0, 0 :: int)] < SVD_WINDOW
   \<and> StructGate_risk [(0, 0), (0, 0), (0, 0), (0, 0), (0, 0)] = 1
   \<and> StructGate_risk [(0, 0), (0, 0), (0, 0), (0, 0), (0, 0)] \<noteq> 0"
  by (simp add: StructGate_risk_def svd_s_def centred_def col_mean_def singular_values_def
      Let_def SVD_WINDOW_def)

section \<open>Navigation decisions\<close>

subsection \<open>Snake-SHM v0.3.2: \<^verbatim>\<open>BaseAgent.get_action\<close>\<close>

text \<open>
  The fields of \<^verbatim>\<open>SnakeGame\<close> that \<^verbatim>\<open>get_action\<close> reads, and the fields of \<^verbatim>\<open>BaseAgent\<close>.
  Reading the head of an empty snake raises \<^verbatim>\<open>IndexError\<close>.
\<close>

datatype py_error = IndexError

record game =
  game_snake :: "pos list"
  game_food :: pos
  game_w :: int
  game_h :: int
  game_steps_since_food :: int
  game_steps_total :: int

record base_agent =
  ba_is_coase :: bool
  ba_panic_history :: "int list"
  ba_in_panic :: bool

definition BaseAgent :: "bool \<Rightarrow> base_agent" where
  "BaseAgent coase = \<lparr>ba_is_coase = coase, ba_panic_history = [], ba_in_panic = False\<rparr>"

definition get_action :: "base_agent \<Rightarrow> game \<Rightarrow> py_error + (move option \<times> base_agent)" where
  "get_action self g =
     (case game_snake g of
        [] \<Rightarrow> Inl IndexError
      | head # _ \<Rightarrow>
          (let snake = game_snake g; w = game_w g; h = game_h g;
               body_no_tail = butlast snake;
               action = bfs_path head (game_food g) body_no_tail w h;
               (action, self) =
                 (if ba_is_coase self then
                    (let risk = analyze_risk snake w h;
                         threshold = base_threshold (game_steps_since_food g)
                     in if risk \<ge> threshold then
                          (let self = (if \<not> ba_in_panic self
                                       then self\<lparr>ba_panic_history :=
                                                   ba_panic_history self @ [game_steps_total g],
                                                 ba_in_panic := True\<rparr>
                                       else self);
                               tail = last snake;
                               escape_move = bfs_path head tail body_no_tail w h
                           in (case escape_move of
                                 Some m \<Rightarrow> Some m
                               | None \<Rightarrow> get_max_reach_move head body_no_tail w h,
                               self))
                        else (action, self\<lparr>ba_in_panic := False\<rparr>))
                  else (action, self));
               action = (case action of
                           None \<Rightarrow> get_max_reach_move head body_no_tail w h
                         | Some m \<Rightarrow> Some m)
           in Inr (action, self)))"

subsection \<open>Vacuum-X v0.3: the world and \<^verbatim>\<open>choose_escape_action\<close>\<close>

text \<open>
  The action table \<^verbatim>\<open>DIRS\<close>, and the fields of \<^verbatim>\<open>VacuumWorld\<close>; the grid array maps a
  cell to 0 (free) or 1 (obstacle) and is read only inside the bounds.
\<close>

fun DIRS :: "move \<Rightarrow> int \<times> int" where
  "DIRS UP = (0, -1)"
| "DIRS DOWN = (0, 1)"
| "DIRS LEFT = (-1, 0)"
| "DIRS RIGHT = (1, 0)"
| "DIRS STAY = (0, 0)"

record vworld =
  vw_w :: int
  vw_h :: int
  vw_grid :: "pos \<Rightarrow> int"
  vw_dock :: pos
  vw_pos :: pos
  vw_battery :: int
  vw_steps :: int

definition in_bounds :: "vworld \<Rightarrow> pos \<Rightarrow> bool" where
  "in_bounds world p = (case p of (x, y) \<Rightarrow> 0 \<le> x \<and> x < vw_w world \<and> 0 \<le> y \<and> y < vw_h world)"

definition is_free :: "vworld \<Rightarrow> pos \<Rightarrow> bool" where
  "is_free world p = (in_bounds world p \<and> vw_grid world p = 0)"

text \<open>
  \<^verbatim>\<open>local_reachable_count\<close>: the budgeted search. The second argument of the loop is
  the budget left, \<^verbatim>\<open>max_expand - expanded\<close>.
\<close>

fun local_visit :: "vworld \<Rightarrow> pos \<Rightarrow> move \<Rightarrow> pos list \<times> pos set \<Rightarrow> pos list \<times> pos set" where
  "local_visit world (x, y) a (q, vis) =
     (case DIRS a of (dx, dy) \<Rightarrow>
        (let np = (x + dx, y + dy) in
         if np \<in> vis then (q, vis)
         else if is_free world np then (q @ [np], insert np vis)
         else (q, vis)))"

fun local_loop :: "vworld \<Rightarrow> nat \<Rightarrow> pos list \<Rightarrow> pos set \<Rightarrow> pos set" where
  "local_loop world 0 q vis = vis"
| "local_loop world (Suc n) [] vis = vis"
| "local_loop world (Suc n) (p # q) vis =
     (case fold (local_visit world p) [UP, DOWN, LEFT, RIGHT] (q, vis) of
        (q', vis') \<Rightarrow> local_loop world n q' vis')"

definition local_reachable_count :: "vworld \<Rightarrow> pos \<Rightarrow> nat \<Rightarrow> int" where
  "local_reachable_count world start max_expand =
     int (card (local_loop world max_expand [start] {start}))"

fun escape_visit :: "vworld \<Rightarrow> move \<Rightarrow> move option \<times> int \<Rightarrow> move option \<times> int" where
  "escape_visit world a (best, best_score) =
     (case vw_pos world of (x, y) \<Rightarrow>
      case DIRS a of (dx, dy) \<Rightarrow>
        (let np = (x + dx, y + dy) in
         if \<not> is_free world np then (best, best_score)
         else (let score = local_reachable_count world np Cfg_LOCAL_REACH_DEPTH in
               if score > best_score then (Some a, score) else (best, best_score))))"

definition choose_escape_action :: "vworld \<Rightarrow> move" where
  "choose_escape_action world =
     (case fst (fold (escape_visit world) [UP, DOWN, LEFT, RIGHT] (None, -1)) of
        None \<Rightarrow> STAY
      | Some a \<Rightarrow> a)"

text \<open>The cell an action leads to from the robot's position.\<close>

definition target :: "vworld \<Rightarrow> move \<Rightarrow> pos" where
  "target world a = (fst (vw_pos world) + fst (DIRS a), snd (vw_pos world) + snd (DIRS a))"

subsection \<open>Facts about the fallback moves\<close>

lemma reach_visit_eq:
  "reach_visit head obstacles w h md (best, mx) =
     (if passable (set obstacles) w h (nbr head md)
      then (if flood_fill_count (nbr head md) obstacles w h > mx
            then (Some (fst md), flood_fill_count (nbr head md) obstacles w h)
            else (best, mx))
      else (best, mx))"
  by (cases head; cases md; cases "snd md")
     (auto simp add: passable_def grid_def nbr_def Let_def)

lemma reach_fold_some:
  "fst (fold (reach_visit head obstacles w h) ms (Some m, mx)) \<noteq> None"
  by (induction ms arbitrary: m mx) (simp_all add: reach_visit_eq)

lemma reach_fold_none:
  "mx < 1 \<Longrightarrow>
     fst (fold (reach_visit head obstacles w h) ms (None, mx)) = None \<longleftrightarrow>
       (\<forall>md \<in> set ms. \<not> passable (set obstacles) w h (nbr head md))"
proof (induction ms arbitrary: mx)
  case Nil
  then show ?case by simp
next
  case (Cons md ms)
  show ?case
  proof (cases "passable (set obstacles) w h (nbr head md)")
    case True
    have "mx < flood_fill_count (nbr head md) obstacles w h"
      using Cons.prems flood_fill_count_pos [of "nbr head md" obstacles w h] by simp
    with True show ?thesis
      by (simp add: reach_visit_eq reach_fold_some)
  next
    case False
    with Cons.IH [OF Cons.prems] show ?thesis
      by (simp add: reach_visit_eq)
  qed
qed

lemma reach_fold_legal:
  "fst (fold (reach_visit head obstacles w h) ms (best, mx)) = Some m \<Longrightarrow>
     best = Some m \<or> (\<exists>d. (m, d) \<in> set ms \<and> passable (set obstacles) w h (nbr head (m, d)))"
proof (induction ms arbitrary: best mx)
  case Nil
  then show ?case by simp
next
  case (Cons md ms)
  let ?s = "reach_visit head obstacles w h md (best, mx)"
  from Cons.prems have "fst (fold (reach_visit head obstacles w h) ms (fst ?s, snd ?s)) = Some m"
    by simp
  from Cons.IH [OF this] consider "fst ?s = Some m"
    | "\<exists>d. (m, d) \<in> set ms \<and> passable (set obstacles) w h (nbr head (m, d))"
    by blast
  then show ?case
  proof cases
    case 1
    then have "best = Some m \<or> (m = fst md \<and> passable (set obstacles) w h (nbr head md))"
      by (auto simp add: reach_visit_eq split: if_splits)
    then show ?thesis
      by (metis list.set_intros(1) prod.collapse)
  next
    case 2
    then show ?thesis by auto
  qed
qed

definition boxed :: "pos \<Rightarrow> pos list \<Rightarrow> int \<Rightarrow> int \<Rightarrow> bool" where
  "boxed head obstacles w h \<longleftrightarrow>
     \<not> (\<exists>md \<in> set MOVES. passable (set obstacles) w h (nbr head md))"

definition legal :: "pos \<Rightarrow> pos list \<Rightarrow> int \<Rightarrow> int \<Rightarrow> move \<Rightarrow> bool" where
  "legal head obstacles w h m \<longleftrightarrow>
     (\<exists>d. (m, d) \<in> set MOVES \<and> passable (set obstacles) w h (nbr head (m, d)))"

lemma get_max_reach_move_none: "get_max_reach_move head obstacles w h = None \<longleftrightarrow> boxed head obstacles w h"
  unfolding get_max_reach_move_def boxed_def
  using reach_fold_none [of "-1" head obstacles w h MOVES] by simp

lemma get_max_reach_move_legal:
  "get_max_reach_move head obstacles w h = Some m \<Longrightarrow> legal head obstacles w h m"
  unfolding get_max_reach_move_def legal_def
  using reach_fold_legal [of head obstacles w h MOVES None "-1" m] by simp

lemma bfs_path_legal:
  assumes "bfs_path start goal obstacles w h = Some m"
  shows "legal start obstacles w h m"
proof -
  from assms obtain rest where "bfs_search start goal obstacles w h = Some (m # rest)"
    by (auto simp add: bfs_path_def split: option.splits list.splits)
  from bfs_search_sound [OF this] obtain d where
    "map_of MOVES m = Some d" "passable (set obstacles) w h (nbr start (m, d))"
    by (auto split: option.splits if_splits)
  then show ?thesis
    unfolding legal_def using MOVES_member by blast
qed

lemma bfs_path_boxed:
  assumes "boxed start obstacles w h"
  shows "bfs_path start goal obstacles w h = None"
proof (cases "bfs_path start goal obstacles w h")
  case None
  then show ?thesis .
next
  case (Some m)
  from bfs_path_legal [OF this] assms show ?thesis
    by (auto simp add: legal_def boxed_def)
qed

lemma get_action_result:
  assumes snake: "game_snake g = head # rest"
    and res: "get_action self g = Inr (action, self')"
  defines "body_no_tail \<equiv> butlast (game_snake g)"
  shows "(action = None \<longleftrightarrow> boxed head body_no_tail (game_w g) (game_h g))"
    and "action = Some m \<Longrightarrow> legal head body_no_tail (game_w g) (game_h g) m"
    and "bfs_path head (game_food g) body_no_tail (game_w g) (game_h g) = None \<Longrightarrow>
         bfs_path head (last (game_snake g)) body_no_tail (game_w g) (game_h g) = None \<Longrightarrow>
         action = get_max_reach_move head body_no_tail (game_w g) (game_h g)"
proof -
  let ?w = "game_w g" and ?h = "game_h g"
  let ?food = "bfs_path head (game_food g) body_no_tail ?w ?h"
  let ?esc = "bfs_path head (last (game_snake g)) body_no_tail ?w ?h"
  let ?reach = "get_max_reach_move head body_no_tail ?w ?h"
  let ?floor = "\<lambda>a. case a of None \<Rightarrow> ?reach | Some m \<Rightarrow> Some m"
  have cases: "action = ?floor ?food \<or> action = ?floor (?floor ?esc)"
    using res snake unfolding get_action_def body_no_tail_def
    by (auto simp add: Let_def split: if_splits option.splits)
  have floor_none: "?floor a = None \<longleftrightarrow> a = None \<and> boxed head body_no_tail ?w ?h" for a
    by (cases a) (simp_all add: get_max_reach_move_none)
  have path_none: "?food = None" "?esc = None" if "boxed head body_no_tail ?w ?h"
    using that by (simp_all add: bfs_path_boxed)
  show "action = None \<longleftrightarrow> boxed head body_no_tail ?w ?h"
    using cases floor_none path_none by metis
  have floor_legal: "legal head body_no_tail ?w ?h m"
    if "?floor a = Some m" "a = None \<or> a = ?food \<or> a = ?esc \<or> a = ?floor ?esc" for a
  proof (cases a)
    case None
    with that(1) show ?thesis by (simp add: get_max_reach_move_legal)
  next
    case (Some m')
    with that(1) have m': "a = Some m" by simp
    from that(2) m' consider "?food = Some m" | "?esc = Some m" | "?esc = None" "?reach = Some m"
      by (cases ?esc) auto
    then show ?thesis
      by cases (auto intro: bfs_path_legal get_max_reach_move_legal)
  qed
  show "legal head body_no_tail ?w ?h m" if "action = Some m"
    using cases that floor_legal by metis
  show "action = ?reach" if "?food = None" "?esc = None"
    using cases that by (auto split: option.splits)
qed

lemma get_action_defined:
  "game_snake g \<noteq> [] \<Longrightarrow> \<exists>action self'. get_action self g = Inr (action, self')"
  by (cases "game_snake g")
     (auto simp add: get_action_def Let_def split: if_splits option.splits prod.splits)

lemma escape_visit_eq:
  "escape_visit world a (best, bs) =
     (if \<not> is_free world (target world a) then (best, bs)
      else if local_reachable_count world (target world a) Cfg_LOCAL_REACH_DEPTH > bs
           then (Some a, local_reachable_count world (target world a) Cfg_LOCAL_REACH_DEPTH)
           else (best, bs))"
  by (cases "vw_pos world"; cases "DIRS a") (simp add: target_def Let_def)

lemma escape_fold_some: "fst (fold (escape_visit world) as (Some a, bs)) \<noteq> None"
  by (induction as arbitrary: a bs) (simp_all add: escape_visit_eq del: escape_visit.simps)

lemma escape_fold_none:
  "bs < 0 \<Longrightarrow>
     fst (fold (escape_visit world) as (None, bs)) = None \<longleftrightarrow>
       (\<forall>a \<in> set as. \<not> is_free world (target world a))"
proof (induction as arbitrary: bs)
  case Nil
  then show ?case by simp
next
  case (Cons a as)
  show ?case
  proof (cases "is_free world (target world a)")
    case True
    have "bs < local_reachable_count world (target world a) Cfg_LOCAL_REACH_DEPTH"
      using Cons.prems by (simp add: local_reachable_count_def)
    with True show ?thesis
      by (simp add: escape_visit_eq escape_fold_some del: escape_visit.simps)
  next
    case False
    with Cons.IH [OF Cons.prems] show ?thesis
      by (simp add: escape_visit_eq del: escape_visit.simps)
  qed
qed

lemma escape_fold_legal:
  "fst (fold (escape_visit world) as (best, bs)) = Some a \<Longrightarrow>
     best = Some a \<or> (a \<in> set as \<and> is_free world (target world a))"
proof (induction as arbitrary: best bs)
  case Nil
  then show ?case by simp
next
  case (Cons b as)
  let ?s = "escape_visit world b (best, bs)"
  from Cons.prems have "fst (fold (escape_visit world) as (fst ?s, snd ?s)) = Some a"
    by simp
  from Cons.IH [OF this] show ?case
    by (auto simp add: escape_visit_eq simp del: escape_visit.simps split: if_splits)
qed

lemma choose_escape_action_result:
  shows "choose_escape_action world = STAY \<longleftrightarrow>
      (\<forall>a \<in> set [UP, DOWN, LEFT, RIGHT]. \<not> is_free world (target world a))"
    and "choose_escape_action world \<noteq> STAY \<Longrightarrow>
      choose_escape_action world \<in> set [UP, DOWN, LEFT, RIGHT]
      \<and> is_free world (target world (choose_escape_action world))"
proof -
  let ?best = "fst (fold (escape_visit world) [UP, DOWN, LEFT, RIGHT] (None, -1))"
  have none: "?best = None \<longleftrightarrow> (\<forall>a \<in> set [UP, DOWN, LEFT, RIGHT]. \<not> is_free world (target world a))"
    by (rule escape_fold_none) simp
  have some: "a \<in> set [UP, DOWN, LEFT, RIGHT] \<and> is_free world (target world a)"
    if "?best = Some a" for a
    using escape_fold_legal [OF that] by simp
  show "choose_escape_action world = STAY \<longleftrightarrow>
      (\<forall>a \<in> set [UP, DOWN, LEFT, RIGHT]. \<not> is_free world (target world a))"
  proof (cases ?best)
    case None
    with none show ?thesis by (simp add: choose_escape_action_def)
  next
    case (Some a)
    with some [OF Some] none show ?thesis
      by (auto simp add: choose_escape_action_def)
  qed
  show "choose_escape_action world \<in> set [UP, DOWN, LEFT, RIGHT]
      \<and> is_free world (target world (choose_escape_action world))"
    if "choose_escape_action world \<noteq> STAY"
  proof (cases ?best)
    case None
    with that show ?thesis by (simp add: choose_escape_action_def)
  next
    case (Some a)
    with some [OF Some] show ?thesis by (simp add: choose_escape_action_def)
  qed
qed

text \<open>
  C4 (as the code has it). In Snake-SHM, \<^verbatim>\<open>get_action\<close> on a non-empty snake raises
  nothing; when the path to the food and the path to the tail are both missing its
  result is that of \<^verbatim>\<open>get_max_reach_move\<close>; it returns \<open>None\<close> exactly when every
  neighbour of the head is outside the grid or on the body without its tail, and every
  move it does return leads to a free cell of the grid. In Vacuum-X v0.3,
  \<^verbatim>\<open>choose_escape_action\<close> returns \<^verbatim>\<open>STAY\<close> exactly when none of the four neighbours is
  free, and otherwise one of the four directions, leading to a free cell.
\<close>

theorem navigation_fallback:
  "(game_snake g \<noteq> [] \<longrightarrow> (\<exists>action self'. get_action self g = Inr (action, self')))
   \<and> (game_snake g = head # rest \<and> get_action self g = Inr (action, self') \<longrightarrow>
        (action = None \<longleftrightarrow> boxed head (butlast (game_snake g)) (game_w g) (game_h g))
        \<and> (\<forall>m. action = Some m \<longrightarrow> legal head (butlast (game_snake g)) (game_w g) (game_h g) m)
        \<and> (bfs_path head (game_food g) (butlast (game_snake g)) (game_w g) (game_h g) = None
           \<and> bfs_path head (last (game_snake g)) (butlast (game_snake g)) (game_w g) (game_h g) = None
           \<longrightarrow> action = get_max_reach_move head (butlast (game_snake g)) (game_w g) (game_h g)))
   \<and> (choose_escape_action world = STAY \<longleftrightarrow>
        (\<forall>a \<in> set [UP, DOWN, LEFT, RIGHT]. \<not> is_free world (target world a)))
   \<and> (choose_escape_action world \<noteq> STAY \<longrightarrow>
        choose_escape_action world \<in> set [UP, DOWN, LEFT, RIGHT]
        \<and> is_free world (target world (choose_escape_action world)))"
  using get_action_defined [of g self] get_action_result [of g head rest self action self']
    choose_escape_action_result [of world]
  by blast

definition open_game :: game where
  "open_game = \<lparr>game_snake = [(1, 1)], game_food = (2, 1),
     game_w = 3, game_h = 3, game_steps_since_food = 0, game_steps_total = 0\<rparr>"

definition pocket_world :: vworld where
  "pocket_world = \<lparr>vw_w = 3, vw_h = 3,
     vw_grid = (\<lambda>p. if p \<in> {(1, 0), (0, 1), (2, 1), (1, 2)} then 1 else 0),
     vw_dock = (0, 0), vw_pos = (1, 1), vw_battery = 60, vw_steps = 0\<rparr>"

theorem navigation_fallback_witness:
  "game_snake open_game = [(1, 1)]
   \<and> get_action (BaseAgent False) open_game = Inr (Some RIGHT, BaseAgent False)
   \<and> legal (1, 1) (butlast (game_snake open_game)) (game_w open_game) (game_h open_game) RIGHT
   \<and> \<not> boxed (1, 1) (butlast (game_snake open_game)) (game_w open_game) (game_h open_game)
   \<and> choose_escape_action pocket_world = STAY
   \<and> \<not> is_free pocket_world (target pocket_world UP)"
proof -
  have s: "game_snake open_game = (1, 1) # []"
    by (simp add: open_game_def)
  have a: "get_action (BaseAgent False) open_game = Inr (Some RIGHT, BaseAgent False)"
    by (simp add: get_action_def open_game_def BaseAgent_def bfs_path_def bfs_search_def
        MOVES_def Let_def)
  have p: "\<not> is_free pocket_world (target pocket_world UP)"
    "\<not> is_free pocket_world (target pocket_world DOWN)"
    "\<not> is_free pocket_world (target pocket_world LEFT)"
    "\<not> is_free pocket_world (target pocket_world RIGHT)"
    by (simp_all add: is_free_def in_bounds_def target_def pocket_world_def)
  from navigation_fallback [of open_game "BaseAgent False" "(1, 1)" "[]" "Some RIGHT"
      "BaseAgent False" pocket_world] s a p
  show ?thesis by simp
qed

definition corner_game :: game where
  "corner_game = \<lparr>game_snake = [(0, 0), (1, 0), (1, 1), (0, 1), (0, 2)], game_food = (5, 5),
     game_w = 20, game_h = 20, game_steps_since_food = 0, game_steps_total = 30\<rparr>"

theorem snake_boxed_returns_none_counterexample:
  "boxed (0, 0) [(0, 0), (1, 0), (1, 1), (0, 1)] 20 20
   \<and> get_max_reach_move (0, 0) [(0, 0), (1, 0), (1, 1), (0, 1)] 20 20 = None
   \<and> get_action (BaseAgent False) corner_game = Inr (None, BaseAgent False)"
  by (simp add: boxed_def MOVES_def nbr_def passable_def grid_def get_max_reach_move_def
      get_action_def corner_game_def BaseAgent_def bfs_path_def bfs_search_def Let_def)

section \<open>Panic state machines and rescue accounting\<close>

datatype mode = NORMAL | SURVIVAL | PANIC | ESCAPE

subsection \<open>Snake-SHM v0.3.2: runs and the rescue count of \<^verbatim>\<open>run_experiment\<close>\<close>

text \<open>
  The agent's state after the first \<open>k\<close> calls of \<^verbatim>\<open>get_action\<close> in the loop of
  \<^verbatim>\<open>run_experiment\<close>, the game at call \<open>k\<close> being \<open>gs k\<close>; a call that raises ends the run.
\<close>

primrec run_snake :: "base_agent \<Rightarrow> (nat \<Rightarrow> game) \<Rightarrow> nat \<Rightarrow> py_error + base_agent" where
  "run_snake self gs 0 = Inr self"
| "run_snake self gs (Suc k) =
     (case run_snake self gs k of
        Inl e \<Rightarrow> Inl e
      | Inr s \<Rightarrow> (case get_action s (gs k) of Inl e \<Rightarrow> Inl e | Inr (action, s') \<Rightarrow> Inr s'))"

text \<open>\<^verbatim>\<open>sum(1 for p in agent.panic_history if game.steps_total - p >= Config.RESCUE_WINDOW)\<close>\<close>

definition rescue_count :: "int list \<Rightarrow> int \<Rightarrow> int" where
  "rescue_count history steps_total =
     int (length (filter (\<lambda>p. steps_total - p \<ge> Config_RESCUE_WINDOW) history))"

subsection \<open>Vacuum-X v0.3: \<^verbatim>\<open>AgentB_StructGate.act\<close>\<close>

text \<open>
  The fields of the agent, with those of its gate (\<open>ab_hist\<close>) and of its monitor
  (\<open>ab_H\<close>, \<open>ab_lpi\<close>). A pending rescue holds the step, the risk and the position at the
  start of the episode.
\<close>

record agent_b =
  ab_hist :: "pos list"
  ab_H :: real
  ab_lpi :: real
  ab_mode :: mode
  ab_escape_timer :: int
  ab_cooldown :: int
  ab_pending_rescue :: "(int \<times> real \<times> pos) option"
  ab_panic_events :: int
  ab_panic_saved :: int
  ab_risk_drop_events :: int
  ab_risk_drop_success :: int

definition AgentB_StructGate :: agent_b where
  "AgentB_StructGate = \<lparr>ab_hist = [], ab_H = 1.0, ab_lpi = 0.0, ab_mode = NORMAL,
     ab_escape_timer = 0, ab_cooldown = 0, ab_pending_rescue = None, ab_panic_events = 0,
     ab_panic_saved = 0, ab_risk_drop_events = 0, ab_risk_drop_success = 0\<rparr>"

text \<open>\<^verbatim>\<open>LPIMonitor.update\<close> of v0.3, on the monitor's two fields; it returns the new stress, the new health and the damage.\<close>

definition LPIMonitor_update :: "real \<Rightarrow> real \<Rightarrow> real \<Rightarrow> bool \<Rightarrow> real \<times> real \<times> real" where
  "LPIMonitor_update H lpi d_t is_safe =
     (let H_prev = H;
          delta_H = - Cfg_STEP_DECAY - (Cfg_COLLAPSE_DECAY * d_t);
          delta_H = (if is_safe then delta_H + Cfg_RECOVERY_GAIN else delta_H);
          H = clip (H + delta_H) 0.0 1.0;
          damage = max 0.0 (H_prev - H);
          lpi_raw = Cfg_DAMAGE_GAIN * damage;
          lpi = Cfg_LPI_RHO * lpi + (1 - Cfg_LPI_RHO) * lpi_raw
      in (lpi, H, damage))"

text \<open>The block "rescue window update" of \<^verbatim>\<open>act\<close>.\<close>

definition rescue_update :: "agent_b \<Rightarrow> int \<Rightarrow> real \<Rightarrow> agent_b" where
  "rescue_update self t d_t =
     (case ab_pending_rescue self of
        None \<Rightarrow> self
      | Some (t0, start_risk, start_pos) \<Rightarrow>
          if t - t0 \<ge> Cfg_RESCUE_WINDOW then
            self\<lparr>ab_risk_drop_events := ab_risk_drop_events self + 1,
                 ab_risk_drop_success :=
                   (if d_t < start_risk - 0.15 then ab_risk_drop_success self + 1
                    else ab_risk_drop_success self),
                 ab_panic_saved := ab_panic_saved self + 1,
                 ab_pending_rescue := None\<rparr>
          else self)"

text \<open>The block "mode machine" of \<^verbatim>\<open>act\<close>.\<close>

definition mode_machine :: "agent_b \<Rightarrow> vworld \<Rightarrow> int \<Rightarrow> real \<Rightarrow> real \<Rightarrow> real \<Rightarrow> agent_b" where
  "mode_machine self world t d_t panic_th bat_th =
     (let self = (if ab_cooldown self > 0 then self\<lparr>ab_cooldown := ab_cooldown self - 1\<rparr>
                  else self);
          target_mode = ab_mode self;
          target_mode = (if real_of_int (vw_battery world) < bat_th then SURVIVAL
                         else target_mode);
          (target_mode, self) =
            (if target_mode = NORMAL \<and> ab_cooldown self = 0 \<and> d_t \<ge> panic_th then
               (ESCAPE,
                self\<lparr>ab_escape_timer := Cfg_ESCAPE_STEPS,
                     ab_cooldown := Cfg_COOLDOWN_STEPS,
                     ab_panic_events := ab_panic_events self + 1,
                     ab_pending_rescue := Some (t, d_t, vw_pos world)\<rparr>)
             else (target_mode, self));
          target_mode = (if ab_mode self = ESCAPE \<and> ab_escape_timer self \<le> 0 then NORMAL
                         else target_mode)
      in self\<lparr>ab_mode := target_mode\<rparr>)"

text \<open>
  The effect of \<^verbatim>\<open>act(world, state_cache)\<close> on the agent, \<open>t\<close> being \<^verbatim>\<open>state_cache["t"]\<close>.
  The action it returns is drawn from the random generator in the modes \<^verbatim>\<open>NORMAL\<close> and
  \<^verbatim>\<open>SURVIVAL\<close> and is \<open>choose_escape_action world\<close> in the mode \<^verbatim>\<open>ESCAPE\<close>, where the
  escape timer is decremented; the action does not enter the agent's fields.
\<close>

definition act :: "agent_b \<Rightarrow> vworld \<Rightarrow> int \<Rightarrow> agent_b" where
  "act self world t =
     (let hist = deque_append Cfg_SVD_WINDOW (ab_hist self) (vw_pos world);
          d_t = StructGate_panic hist;
          (lpi, H, dmg) = LPIMonitor_update (ab_H self) (ab_lpi self) d_t
                            (vw_pos world = vw_dock world);
          self = self\<lparr>ab_hist := hist, ab_H := H, ab_lpi := lpi\<rparr>;
          (panic_th, bat_th) = dynamic_thresholds lpi (vw_battery world);
          self = rescue_update self t d_t;
          self = mode_machine self world t d_t panic_th bat_th
      in if ab_mode self = ESCAPE then self\<lparr>ab_escape_timer := ab_escape_timer self - 1\<rparr>
         else self)"

text \<open>
  The agent's state after the first \<open>k\<close> passes of the loop \<^verbatim>\<open>for t in range(max_steps)\<close>
  of \<^verbatim>\<open>run_single\<close>, the world at pass \<open>k\<close> being \<open>ws k\<close>.
\<close>

primrec run_b :: "agent_b \<Rightarrow> (nat \<Rightarrow> vworld) \<Rightarrow> nat \<Rightarrow> agent_b" where
  "run_b self ws 0 = self"
| "run_b self ws (Suc k) = act (run_b self ws k) (ws k) (int k)"

subsection \<open>Vacuum-X Coase frontier: \<^verbatim>\<open>CoaseAgent.choose\<close>\<close>

record coase_agent =
  ca_alpha :: real
  ca_hist :: "pos list"
  ca_H :: real
  ca_LPI :: real
  ca_mode :: mode
  ca_panic_events :: int
  ca_panic_saved :: int
  ca_last_panic_step :: "int option"

definition CoaseAgent :: "real \<Rightarrow> coase_agent" where
  "CoaseAgent alpha = \<lparr>ca_alpha = alpha, ca_hist = [], ca_H = 1.0, ca_LPI = 0.0,
     ca_mode = NORMAL, ca_panic_events = 0, ca_panic_saved = 0, ca_last_panic_step = None\<rparr>"

text \<open>The fields of the frontier probe's \<^verbatim>\<open>VacuumWorld\<close> that \<^verbatim>\<open>choose\<close> reads, and \<^verbatim>\<open>done()\<close>.\<close>

record fworld =
  fw_pos :: pos
  fw_battery :: int
  fw_steps :: int

definition fw_done :: "fworld \<Rightarrow> bool" where
  "fw_done world \<longleftrightarrow> fw_battery world \<le> 0 \<or> fw_steps world \<ge> MAX_STEPS"

text \<open>\<^verbatim>\<open>LPIMonitor.update\<close> of the frontier probe; it returns the new health and the new stress.\<close>

definition frontier_lpi_update :: "real \<Rightarrow> real \<Rightarrow> real \<Rightarrow> bool \<Rightarrow> real \<times> real" where
  "frontier_lpi_update H LPI risk forced =
     (let damage = 0.001 + 0.05 * risk;
          damage = (if forced then damage + 0.1 else damage);
          H_prev = H;
          H = max 0.0 (H - damage);
          dH = max 0.0 (H_prev - H);
          raw = risk + dH;
          LPI = LPI_RHO * LPI + (1 - LPI_RHO) * raw
      in (H, LPI))"

text \<open>
  The effect of \<^verbatim>\<open>choose(world)\<close> on the agent. The action it returns (\<^verbatim>\<open>LEFT\<close> in the
  mode \<^verbatim>\<open>SURVIVAL\<close>, a random direction otherwise) does not enter the agent's fields.
\<close>

definition CoaseAgent_choose :: "coase_agent \<Rightarrow> fworld \<Rightarrow> coase_agent" where
  "CoaseAgent_choose self world =
     (let hist = deque_append SVD_WINDOW (ca_hist self) (fw_pos world);
          r = StructGate_risk hist;
          (H, lpi) = frontier_lpi_update (ca_H self) (ca_LPI self) r False;
          self = self\<lparr>ca_hist := hist, ca_H := H, ca_LPI := lpi\<rparr>;
          panic_th = frontier_panic_th (ca_alpha self) lpi (fw_battery world);
          low_bat_th = frontier_low_bat_th (ca_alpha self) lpi;
          self =
            (if real_of_int (fw_battery world) < low_bat_th then self\<lparr>ca_mode := SURVIVAL\<rparr>
             else if r > panic_th then
               (let self = (if ca_mode self \<noteq> PANIC
                            then self\<lparr>ca_panic_events := ca_panic_events self + 1,
                                      ca_last_panic_step := Some (fw_steps world)\<rparr>
                            else self)
                in self\<lparr>ca_mode := PANIC\<rparr>)
             else self\<lparr>ca_mode := NORMAL\<rparr>)
      in case ca_last_panic_step self of
           None \<Rightarrow> self
         | Some last_step \<Rightarrow>
             if fw_steps world - last_step = RESCUE_WINDOW then
               (let self = (if \<not> fw_done world
                            then self\<lparr>ca_panic_saved := ca_panic_saved self + 1\<rparr>
                            else self)
                in self\<lparr>ca_last_panic_step := None\<rparr>)
             else self)"

text \<open>
  The agent's state after the first \<open>k\<close> passes of the loop \<^verbatim>\<open>while not world.done()\<close>
  of \<^verbatim>\<open>run_alpha\<close>, the world at pass \<open>k\<close> being \<open>ws k\<close>.
\<close>

primrec run_f :: "coase_agent \<Rightarrow> (nat \<Rightarrow> fworld) \<Rightarrow> nat \<Rightarrow> coase_agent" where
  "run_f self ws 0 = self"
| "run_f self ws (Suc k) = CoaseAgent_choose (run_f self ws k) (ws k)"

definition stuck_world :: "nat \<Rightarrow> vworld" where
  "stuck_world k = \<lparr>vw_w = 12, vw_h = 12,
     vw_grid = (\<lambda>p. if p \<in> {(3, 2), (2, 3), (4, 3), (3, 4)} then 1 else 0),
     vw_dock = (0, 0), vw_pos = (3, 3), vw_battery = 60 - int k, vw_steps = int k\<rparr>"

subsection \<open>Vacuum-X v0.3: the counters along a run\<close>

text \<open>
  The quantities one call of \<^verbatim>\<open>act\<close> computes before it touches the counters: the risk of
  the window with the current position appended, the stress after the monitor's update,
  the two comparisons with the dynamic thresholds, and whether the pending episode is due.
\<close>

definition risk_now :: "agent_b \<Rightarrow> vworld \<Rightarrow> real" where
  "risk_now self world =
     StructGate_panic (deque_append Cfg_SVD_WINDOW (ab_hist self) (vw_pos world))"

definition stress_now :: "agent_b \<Rightarrow> vworld \<Rightarrow> real" where
  "stress_now self world =
     fst (LPIMonitor_update (ab_H self) (ab_lpi self) (risk_now self world)
            (vw_pos world = vw_dock world))"

definition battery_low :: "agent_b \<Rightarrow> vworld \<Rightarrow> bool" where
  "battery_low self world \<longleftrightarrow>
     real_of_int (vw_battery world)
       < snd (dynamic_thresholds (stress_now self world) (vw_battery world))"

definition risk_high :: "agent_b \<Rightarrow> vworld \<Rightarrow> bool" where
  "risk_high self world \<longleftrightarrow>
     risk_now self world \<ge> fst (dynamic_thresholds (stress_now self world) (vw_battery world))"

definition rescue_due :: "agent_b \<Rightarrow> int \<Rightarrow> bool" where
  "rescue_due self t \<longleftrightarrow>
     (case ab_pending_rescue self of
        None \<Rightarrow> False
      | Some (t0, start_risk, start_pos) \<Rightarrow> t - t0 \<ge> Cfg_RESCUE_WINDOW)"

definition pending_risk :: "agent_b \<Rightarrow> real" where
  "pending_risk self =
     (case ab_pending_rescue self of None \<Rightarrow> 0 | Some (t0, start_risk, start_pos) \<Rightarrow> start_risk)"

definition triggers :: "agent_b \<Rightarrow> vworld \<Rightarrow> bool" where
  "triggers self world \<longleftrightarrow>
     ab_mode self = NORMAL \<and> \<not> battery_low self world
     \<and> (ab_cooldown self = 0 \<or> ab_cooldown self = 1) \<and> risk_high self world"

lemma rescue_update_fields:
  "ab_mode (rescue_update s t d) = ab_mode s"
  "ab_cooldown (rescue_update s t d) = ab_cooldown s"
  "ab_escape_timer (rescue_update s t d) = ab_escape_timer s"
  "ab_panic_events (rescue_update s t d) = ab_panic_events s"
  "ab_hist (rescue_update s t d) = ab_hist s"
  "ab_H (rescue_update s t d) = ab_H s"
  "ab_lpi (rescue_update s t d) = ab_lpi s"
  "ab_pending_rescue (rescue_update s t d) = (if rescue_due s t then None else ab_pending_rescue s)"
  "ab_risk_drop_events (rescue_update s t d) = ab_risk_drop_events s + (if rescue_due s t then 1 else 0)"
  "ab_panic_saved (rescue_update s t d) = ab_panic_saved s + (if rescue_due s t then 1 else 0)"
  "ab_risk_drop_success (rescue_update s t d) =
     ab_risk_drop_success s + (if rescue_due s t \<and> d < pending_risk s - 0.15 then 1 else 0)"
  by (auto simp add: rescue_update_def rescue_due_def pending_risk_def split: option.splits)

lemma act_unfold:
  "act s world t =
     (let m = mode_machine
               (rescue_update
                  (s\<lparr>ab_hist := deque_append Cfg_SVD_WINDOW (ab_hist s) (vw_pos world),
                      ab_H := fst (snd (LPIMonitor_update (ab_H s) (ab_lpi s) (risk_now s world)
                                          (vw_pos world = vw_dock world))),
                      ab_lpi := stress_now s world\<rparr>) t (risk_now s world))
               world t (risk_now s world)
               (fst (dynamic_thresholds (stress_now s world) (vw_battery world)))
               (snd (dynamic_thresholds (stress_now s world) (vw_battery world)))
      in if ab_mode m = ESCAPE then m\<lparr>ab_escape_timer := ab_escape_timer m - 1\<rparr> else m)"
  by (simp add: act_def risk_now_def stress_now_def Let_def case_prod_unfold)

lemma mode_machine_fields:
  fixes s world t d pth bth
  defines "low \<equiv> real_of_int (vw_battery world) < bth"
  defines "trig \<equiv> ab_mode s = NORMAL \<and> \<not> low \<and> (ab_cooldown s = 0 \<or> ab_cooldown s = 1) \<and> d \<ge> pth"
  shows "ab_mode (mode_machine s world t d pth bth) =
      (if trig then ESCAPE
       else if ab_mode s = ESCAPE \<and> ab_escape_timer s \<le> 0 then NORMAL
       else if low then SURVIVAL else ab_mode s)"
    and "ab_cooldown (mode_machine s world t d pth bth) =
      (if trig then Cfg_COOLDOWN_STEPS
       else if ab_cooldown s > 0 then ab_cooldown s - 1 else ab_cooldown s)"
    and "ab_escape_timer (mode_machine s world t d pth bth) =
      (if trig then Cfg_ESCAPE_STEPS else ab_escape_timer s)"
    and "ab_panic_events (mode_machine s world t d pth bth) =
      ab_panic_events s + (if trig then 1 else 0)"
    and "ab_pending_rescue (mode_machine s world t d pth bth) =
      (if trig then Some (t, d, vw_pos world) else ab_pending_rescue s)"
    and "ab_risk_drop_events (mode_machine s world t d pth bth) = ab_risk_drop_events s"
    and "ab_panic_saved (mode_machine s world t d pth bth) = ab_panic_saved s"
    and "ab_risk_drop_success (mode_machine s world t d pth bth) = ab_risk_drop_success s"
    and "ab_hist (mode_machine s world t d pth bth) = ab_hist s"
    and "ab_H (mode_machine s world t d pth bth) = ab_H s"
    and "ab_lpi (mode_machine s world t d pth bth) = ab_lpi s"
  unfolding low_def trig_def
  by (auto simp add: mode_machine_def Let_def)

lemma act_fields:
  "ab_mode (act s world t) =
     (if triggers s world then ESCAPE
      else if ab_mode s = ESCAPE \<and> ab_escape_timer s \<le> 0 then NORMAL
      else if battery_low s world then SURVIVAL else ab_mode s)"
  "ab_cooldown (act s world t) =
     (if triggers s world then Cfg_COOLDOWN_STEPS
      else if ab_cooldown s > 0 then ab_cooldown s - 1 else ab_cooldown s)"
  "ab_escape_timer (act s world t) =
     (if triggers s world then Cfg_ESCAPE_STEPS - 1
      else if ab_mode s = ESCAPE \<and> 0 < ab_escape_timer s \<and> \<not> battery_low s world
      then ab_escape_timer s - 1 else ab_escape_timer s)"
  "ab_panic_events (act s world t) = ab_panic_events s + (if triggers s world then 1 else 0)"
  "ab_pending_rescue (act s world t) =
     (if triggers s world then Some (t, risk_now s world, vw_pos world)
      else if rescue_due s t then None else ab_pending_rescue s)"
  "ab_risk_drop_events (act s world t) = ab_risk_drop_events s + (if rescue_due s t then 1 else 0)"
  "ab_panic_saved (act s world t) = ab_panic_saved s + (if rescue_due s t then 1 else 0)"
  "ab_risk_drop_success (act s world t) =
     ab_risk_drop_success s
       + (if rescue_due s t \<and> risk_now s world < pending_risk s - 0.15 then 1 else 0)"
  "ab_hist (act s world t) = deque_append Cfg_SVD_WINDOW (ab_hist s) (vw_pos world)"
  "ab_lpi (act s world t) = stress_now s world"
  "ab_H (act s world t) =
     fst (snd (LPIMonitor_update (ab_H s) (ab_lpi s) (risk_now s world)
                 (vw_pos world = vw_dock world)))"
  unfolding act_unfold Let_def
  by (auto simp add: mode_machine_fields rescue_update_fields triggers_def battery_low_def
      risk_high_def rescue_due_def pending_risk_def)

definition starts_b :: "agent_b \<Rightarrow> (nat \<Rightarrow> vworld) \<Rightarrow> nat \<Rightarrow> bool" where
  "starts_b A ws k \<longleftrightarrow>
     ab_mode (run_b A ws k) = NORMAL \<and> ab_mode (run_b A ws (Suc k)) = ESCAPE"

definition risk_at :: "agent_b \<Rightarrow> (nat \<Rightarrow> vworld) \<Rightarrow> nat \<Rightarrow> real" where
  "risk_at A ws k = risk_now (run_b A ws k) (ws k)"

definition evaluated_b :: "agent_b \<Rightarrow> (nat \<Rightarrow> vworld) \<Rightarrow> nat \<Rightarrow> bool" where
  "evaluated_b A ws k \<longleftrightarrow>
     12 \<le> k \<and> starts_b A ws (k - 12) \<and> (\<forall>i. k - 12 < i \<and> i < k \<longrightarrow> \<not> starts_b A ws i)"

lemma starts_b_triggers: "starts_b A ws k \<longleftrightarrow> triggers (run_b A ws k) (ws k)"
  by (auto simp add: starts_b_def act_fields triggers_def)

lemma run_b_events:
  "ab_panic_events (run_b A ws n) =
     ab_panic_events A + int (length (filter (starts_b A ws) [0..<n]))"
  by (induction n) (simp_all add: act_fields starts_b_triggers)

definition slot_ok :: "agent_b \<Rightarrow> (nat \<Rightarrow> vworld) \<Rightarrow> nat \<Rightarrow> bool" where
  "slot_ok A ws k \<longleftrightarrow>
     (case ab_pending_rescue (run_b A ws k) of
        None \<Rightarrow> \<forall>j<k. k \<le> j + 12 \<longrightarrow> \<not> starts_b A ws j
      | Some (t0, r, p) \<Rightarrow>
          \<exists>j<k. t0 = int j \<and> k \<le> j + 12 \<and> starts_b A ws j \<and> r = risk_at A ws j
            \<and> (\<forall>i. j < i \<and> i < k \<longrightarrow> \<not> starts_b A ws i))"

lemma slot_ok_run:
  assumes "ab_pending_rescue A = None"
  shows "slot_ok A ws k"
proof (induction k)
  case 0
  then show ?case using assms by (simp add: slot_ok_def)
next
  case (Suc k)
  let ?s = "run_b A ws k"
  show ?case
  proof (cases "starts_b A ws k")
    case True
    then have "ab_pending_rescue (run_b A ws (Suc k)) = Some (int k, risk_at A ws k, vw_pos (ws k))"
      by (simp add: act_fields starts_b_triggers risk_at_def)
    with True show ?thesis
      by (auto simp add: slot_ok_def)
  next
    case False
    then have nt: "\<not> triggers ?s (ws k)" by (simp add: starts_b_triggers)
    show ?thesis
    proof (cases "ab_pending_rescue ?s")
      case None
      then have "ab_pending_rescue (run_b A ws (Suc k)) = None"
        using nt by (simp add: act_fields)
      moreover have "\<forall>j<k. k \<le> j + 12 \<longrightarrow> \<not> starts_b A ws j"
        using Suc.IH None by (simp add: slot_ok_def)
      ultimately show ?thesis
        using False by (auto simp add: slot_ok_def less_Suc_eq)
    next
      case (Some x)
      obtain t0 r p where x: "x = (t0, r, p)" by (cases x)
      from Suc.IH Some x obtain j where
        j: "j < k" "t0 = int j" "k \<le> j + 12" "starts_b A ws j" "r = risk_at A ws j"
          "\<forall>i. j < i \<and> i < k \<longrightarrow> \<not> starts_b A ws i"
        by (auto simp add: slot_ok_def)
      show ?thesis
      proof (cases "rescue_due ?s (int k)")
        case True
        then have kj: "k = j + 12"
          using Some x j(2,3) by (simp add: rescue_due_def Cfg_RESCUE_WINDOW_def)
        have none: "ab_pending_rescue (run_b A ws (Suc k)) = None"
          using nt True by (simp add: act_fields)
        have "\<not> starts_b A ws j'" if "j' < Suc k" "Suc k \<le> j' + 12" for j'
        proof -
          from that kj consider "j' = k" | "j < j'" "j' < k" by linarith
          then show ?thesis using False j(6) by cases auto
        qed
        with none show ?thesis
          by (simp add: slot_ok_def)
      next
        case due: False
        then have "k < j + 12"
          using Some x j(2) by (simp add: rescue_due_def Cfg_RESCUE_WINDOW_def)
        moreover have "ab_pending_rescue (run_b A ws (Suc k)) = Some (t0, r, p)"
          using nt due Some x by (simp add: act_fields)
        ultimately show ?thesis
          using False j by (auto simp add: slot_ok_def less_Suc_eq)
      qed
    qed
  qed
qed

lemma rescue_due_run:
  assumes "ab_pending_rescue A = None"
  shows "rescue_due (run_b A ws k) (int k) \<longleftrightarrow> evaluated_b A ws k"
    and "rescue_due (run_b A ws k) (int k) \<Longrightarrow>
           pending_risk (run_b A ws k) = risk_at A ws (k - 12)"
proof -
  have ok: "slot_ok A ws k" using assms by (rule slot_ok_run)
  show "rescue_due (run_b A ws k) (int k) \<longleftrightarrow> evaluated_b A ws k"
  proof (cases "ab_pending_rescue (run_b A ws k)")
    case None
    with ok have "\<forall>j<k. k \<le> j + 12 \<longrightarrow> \<not> starts_b A ws j"
      by (simp add: slot_ok_def)
    then have "\<not> evaluated_b A ws k"
      by (auto simp add: evaluated_b_def)
    with None show ?thesis by (simp add: rescue_due_def)
  next
    case (Some x)
    obtain t0 r p where x: "x = (t0, r, p)" by (cases x)
    from ok Some x obtain j where
      j: "j < k" "t0 = int j" "k \<le> j + 12" "starts_b A ws j"
        "\<forall>i. j < i \<and> i < k \<longrightarrow> \<not> starts_b A ws i"
      by (auto simp add: slot_ok_def)
    have due: "rescue_due (run_b A ws k) (int k) \<longleftrightarrow> k = j + 12"
      using Some x j(2,3) by (auto simp add: rescue_due_def Cfg_RESCUE_WINDOW_def)
    show ?thesis
    proof
      assume "rescue_due (run_b A ws k) (int k)"
      with due have "k = j + 12" by simp
      with j show "evaluated_b A ws k" by (simp add: evaluated_b_def)
    next
      assume ev: "evaluated_b A ws k"
      then have s: "12 \<le> k" "starts_b A ws (k - 12)"
        "\<forall>i. k - 12 < i \<and> i < k \<longrightarrow> \<not> starts_b A ws i"
        by (simp_all add: evaluated_b_def)
      have "\<not> k - 12 < j" using s(3) j(1,4) by blast
      moreover have "\<not> j < k - 12" using j(3) by simp
      ultimately have "j = k - 12" by simp
      with s(1) due show "rescue_due (run_b A ws k) (int k)" by simp
    qed
  qed
  show "pending_risk (run_b A ws k) = risk_at A ws (k - 12)"
    if d: "rescue_due (run_b A ws k) (int k)"
  proof -
    from d obtain t0 r p where x: "ab_pending_rescue (run_b A ws k) = Some (t0, r, p)"
      by (auto simp add: rescue_due_def split: option.splits)
    from ok x obtain j where
      j: "t0 = int j" "k \<le> j + 12" "r = risk_at A ws j"
      by (auto simp add: slot_ok_def)
    from d x j(1,2) have "k = j + 12"
      by (simp add: rescue_due_def Cfg_RESCUE_WINDOW_def)
    with x j(3) show ?thesis by (simp add: pending_risk_def)
  qed
qed

lemma run_b_accounting:
  assumes "ab_pending_rescue A = None"
  shows "ab_risk_drop_events (run_b A ws (Suc k)) =
      ab_risk_drop_events (run_b A ws k) + (if evaluated_b A ws k then 1 else 0)"
    and "ab_panic_saved (run_b A ws (Suc k)) =
      ab_panic_saved (run_b A ws k) + (if evaluated_b A ws k then 1 else 0)"
    and "ab_risk_drop_success (run_b A ws (Suc k)) =
      ab_risk_drop_success (run_b A ws k)
        + (if evaluated_b A ws k \<and> risk_at A ws k < risk_at A ws (k - 12) - 0.15 then 1 else 0)"
  using rescue_due_run [OF assms, of ws k]
  by (auto simp add: act_fields risk_at_def)

subsection \<open>Vacuum-X Coase frontier: the counters along a run\<close>

definition frontier_risk_now :: "coase_agent \<Rightarrow> fworld \<Rightarrow> real" where
  "frontier_risk_now self world =
     StructGate_risk (deque_append SVD_WINDOW (ca_hist self) (fw_pos world))"

definition frontier_stress_now :: "coase_agent \<Rightarrow> fworld \<Rightarrow> real" where
  "frontier_stress_now self world =
     snd (frontier_lpi_update (ca_H self) (ca_LPI self) (frontier_risk_now self world) False)"

definition frontier_low :: "coase_agent \<Rightarrow> fworld \<Rightarrow> bool" where
  "frontier_low self world \<longleftrightarrow>
     real_of_int (fw_battery world)
       < frontier_low_bat_th (ca_alpha self) (frontier_stress_now self world)"

definition frontier_hot :: "coase_agent \<Rightarrow> fworld \<Rightarrow> bool" where
  "frontier_hot self world \<longleftrightarrow>
     frontier_risk_now self world
       > frontier_panic_th (ca_alpha self) (frontier_stress_now self world) (fw_battery world)"

definition enters :: "coase_agent \<Rightarrow> fworld \<Rightarrow> bool" where
  "enters self world \<longleftrightarrow>
     \<not> frontier_low self world \<and> frontier_hot self world \<and> ca_mode self \<noteq> PANIC"

definition frontier_due :: "coase_agent \<Rightarrow> fworld \<Rightarrow> bool" where
  "frontier_due self world \<longleftrightarrow>
     \<not> enters self world \<and> ca_last_panic_step self = Some (fw_steps world - RESCUE_WINDOW)"

lemma choose_fields:
  "ca_mode (CoaseAgent_choose s world) =
     (if frontier_low s world then SURVIVAL
      else if frontier_hot s world then PANIC else NORMAL)"
  "ca_panic_events (CoaseAgent_choose s world) =
     ca_panic_events s + (if enters s world then 1 else 0)"
  "ca_panic_saved (CoaseAgent_choose s world) =
     ca_panic_saved s + (if frontier_due s world \<and> \<not> fw_done world then 1 else 0)"
  "ca_last_panic_step (CoaseAgent_choose s world) =
     (if enters s world then Some (fw_steps world)
      else if frontier_due s world then None else ca_last_panic_step s)"
  "ca_alpha (CoaseAgent_choose s world) = ca_alpha s"
  "ca_hist (CoaseAgent_choose s world) = deque_append SVD_WINDOW (ca_hist s) (fw_pos world)"
  by (auto simp add: CoaseAgent_choose_def Let_def case_prod_unfold frontier_low_def
      frontier_hot_def enters_def frontier_due_def frontier_stress_now_def frontier_risk_now_def
      RESCUE_WINDOW_def split: option.splits)

definition starts_f :: "coase_agent \<Rightarrow> (nat \<Rightarrow> fworld) \<Rightarrow> nat \<Rightarrow> bool" where
  "starts_f A ws k \<longleftrightarrow>
     ca_mode (run_f A ws k) \<noteq> PANIC \<and> ca_mode (run_f A ws (Suc k)) = PANIC"

definition evaluated_f :: "coase_agent \<Rightarrow> (nat \<Rightarrow> fworld) \<Rightarrow> nat \<Rightarrow> bool" where
  "evaluated_f A ws k \<longleftrightarrow>
     12 \<le> k \<and> starts_f A ws (k - 12) \<and> (\<forall>i. k - 12 < i \<and> i \<le> k \<longrightarrow> \<not> starts_f A ws i)"

lemma starts_f_enters: "starts_f A ws k \<longleftrightarrow> enters (run_f A ws k) (ws k)"
  by (auto simp add: starts_f_def choose_fields enters_def)

lemma run_f_events:
  "ca_panic_events (run_f A ws n) =
     ca_panic_events A + int (length (filter (starts_f A ws) [0..<n]))"
  by (induction n) (simp_all add: choose_fields starts_f_enters)

definition slot_ok_f :: "coase_agent \<Rightarrow> (nat \<Rightarrow> fworld) \<Rightarrow> nat \<Rightarrow> bool" where
  "slot_ok_f A ws k \<longleftrightarrow>
     (case ca_last_panic_step (run_f A ws k) of
        None \<Rightarrow> \<forall>j<k. k \<le> j + 12 \<longrightarrow> \<not> starts_f A ws j
      | Some t0 \<Rightarrow>
          \<exists>j<k. t0 = int j \<and> k \<le> j + 12 \<and> starts_f A ws j
            \<and> (\<forall>i. j < i \<and> i < k \<longrightarrow> \<not> starts_f A ws i))"

lemma slot_ok_f_run:
  assumes none: "ca_last_panic_step A = None"
    and steps: "\<forall>k<n. fw_steps (ws k) = int k"
  shows "k \<le> n \<Longrightarrow> slot_ok_f A ws k"
proof (induction k)
  case 0
  then show ?case using none by (simp add: slot_ok_f_def)
next
  case (Suc k)
  let ?s = "run_f A ws k"
  have st: "fw_steps (ws k) = int k" using steps Suc.prems by simp
  have ih: "slot_ok_f A ws k" using Suc by simp
  show ?case
  proof (cases "starts_f A ws k")
    case True
    then have "ca_last_panic_step (run_f A ws (Suc k)) = Some (int k)"
      by (simp add: choose_fields starts_f_enters st)
    with True show ?thesis
      by (auto simp add: slot_ok_f_def)
  next
    case False
    then have nt: "\<not> enters ?s (ws k)" by (simp add: starts_f_enters)
    show ?thesis
    proof (cases "ca_last_panic_step ?s")
      case None
      then have "ca_last_panic_step (run_f A ws (Suc k)) = None"
        using nt by (simp add: choose_fields)
      moreover have "\<forall>j<k. k \<le> j + 12 \<longrightarrow> \<not> starts_f A ws j"
        using ih None by (simp add: slot_ok_f_def)
      ultimately show ?thesis
        using False by (auto simp add: slot_ok_f_def less_Suc_eq)
    next
      case (Some t0)
      from ih Some obtain j where
        j: "j < k" "t0 = int j" "k \<le> j + 12" "starts_f A ws j"
          "\<forall>i. j < i \<and> i < k \<longrightarrow> \<not> starts_f A ws i"
        by (auto simp add: slot_ok_f_def)
      show ?thesis
      proof (cases "frontier_due ?s (ws k)")
        case True
        then have kj: "k = j + 12"
          using Some j(2) st by (simp add: frontier_due_def RESCUE_WINDOW_def)
        have last_none: "ca_last_panic_step (run_f A ws (Suc k)) = None"
          using nt True by (simp add: choose_fields)
        have "\<not> starts_f A ws j'" if "j' < Suc k" "Suc k \<le> j' + 12" for j'
        proof -
          from that kj consider "j' = k" | "j < j'" "j' < k" by linarith
          then show ?thesis using False j(5) by cases auto
        qed
        with last_none show ?thesis
          by (simp add: slot_ok_f_def)
      next
        case due: False
        then have "k \<noteq> j + 12"
          using Some j(2) st nt by (auto simp add: frontier_due_def RESCUE_WINDOW_def)
        with j(3) have "k < j + 12" by simp
        moreover have "ca_last_panic_step (run_f A ws (Suc k)) = Some t0"
          using nt due Some by (simp add: choose_fields)
        ultimately show ?thesis
          using False j by (auto simp add: slot_ok_f_def less_Suc_eq)
      qed
    qed
  qed
qed

lemma run_f_accounting:
  assumes none: "ca_last_panic_step A = None"
    and steps: "\<forall>k<n. fw_steps (ws k) = int k \<and> \<not> fw_done (ws k)"
    and k: "k < n"
  shows "ca_panic_saved (run_f A ws (Suc k)) =
      ca_panic_saved (run_f A ws k) + (if evaluated_f A ws k then 1 else 0)"
proof -
  have st: "fw_steps (ws k) = int k" "\<not> fw_done (ws k)" using steps k by simp_all
  have ok: "slot_ok_f A ws k"
    using none steps k by (intro slot_ok_f_run [where n = n]) simp_all
  have "frontier_due (run_f A ws k) (ws k) \<longleftrightarrow> evaluated_f A ws k"
  proof (cases "ca_last_panic_step (run_f A ws k)")
    case None
    with ok have "\<forall>j<k. k \<le> j + 12 \<longrightarrow> \<not> starts_f A ws j"
      by (simp add: slot_ok_f_def)
    then have "\<not> evaluated_f A ws k"
      by (auto simp add: evaluated_f_def)
    with None show ?thesis by (simp add: frontier_due_def)
  next
    case (Some t0)
    from ok Some obtain j where
      j: "j < k" "t0 = int j" "k \<le> j + 12" "starts_f A ws j"
        "\<forall>i. j < i \<and> i < k \<longrightarrow> \<not> starts_f A ws i"
      by (auto simp add: slot_ok_f_def)
    have due: "frontier_due (run_f A ws k) (ws k) \<longleftrightarrow> k = j + 12 \<and> \<not> starts_f A ws k"
      using Some j(2) st(1) by (auto simp add: frontier_due_def RESCUE_WINDOW_def starts_f_enters)
    show ?thesis
    proof
      assume "frontier_due (run_f A ws k) (ws k)"
      with due have kj: "k = j + 12" "\<not> starts_f A ws k" by blast+
      have "\<not> starts_f A ws i" if "k - 12 < i" "i \<le> k" for i
        using that kj j(5) by (cases "i = k") auto
      then have "\<forall>i. k - 12 < i \<and> i \<le> k \<longrightarrow> \<not> starts_f A ws i" by blast
      moreover have "12 \<le> k" "starts_f A ws (k - 12)" using kj j(4) by simp_all
      ultimately show "evaluated_f A ws k" unfolding evaluated_f_def by blast
    next
      assume ev: "evaluated_f A ws k"
      then have s: "12 \<le> k" "starts_f A ws (k - 12)"
        "\<forall>i. k - 12 < i \<and> i \<le> k \<longrightarrow> \<not> starts_f A ws i"
        by (simp_all add: evaluated_f_def)
      have "\<not> k - 12 < j" using s(3) j(1,4) by (meson less_imp_le_nat)
      moreover have "\<not> j < k - 12" using j(3) by simp
      ultimately have "j = k - 12" by simp
      moreover have "\<not> starts_f A ws k" using s(1,3) by simp
      ultimately show "frontier_due (run_f A ws k) (ws k)" using s(1) due by simp
    qed
  qed
  with st(2) show ?thesis by (simp add: choose_fields)
qed

subsection \<open>Snake-SHM v0.3.2: the panic history along a run\<close>

lemma get_action_state:
  assumes "get_action s g = Inr (action, s')"
  shows "ba_panic_history s' =
      (if \<not> ba_in_panic s \<and> ba_in_panic s' then ba_panic_history s @ [game_steps_total g]
       else ba_panic_history s)"
    and "ba_in_panic s' =
      (if ba_is_coase s
       then analyze_risk (game_snake g) (game_w g) (game_h g)
              \<ge> base_threshold (game_steps_since_food g)
       else ba_in_panic s)"
    and "ba_is_coase s' = ba_is_coase s"
  using assms
  by (auto simp add: get_action_def Let_def split: list.splits if_splits option.splits)

definition enters_snake :: "base_agent \<Rightarrow> (nat \<Rightarrow> game) \<Rightarrow> nat \<Rightarrow> bool" where
  "enters_snake A gs k \<longleftrightarrow>
     (case (run_snake A gs k, run_snake A gs (Suc k)) of
        (Inr s, Inr s') \<Rightarrow> \<not> ba_in_panic s \<and> ba_in_panic s'
      | _ \<Rightarrow> False)"

lemma run_snake_history:
  "run_snake A gs n = Inr s \<Longrightarrow>
     length (ba_panic_history s) =
       length (ba_panic_history A) + length (filter (enters_snake A gs) [0..<n])"
proof (induction n arbitrary: s)
  case 0
  then show ?case by simp
next
  case (Suc n)
  from Suc.prems obtain s0 action where
    s0: "run_snake A gs n = Inr s0" and ga: "get_action s0 (gs n) = Inr (action, s)"
    by (auto split: sum.splits)
  have "enters_snake A gs n \<longleftrightarrow> \<not> ba_in_panic s0 \<and> ba_in_panic s"
    using s0 ga by (simp add: enters_snake_def)
  with get_action_state(1) [OF ga] Suc.IH [OF s0] show ?case by simp
qed

subsection \<open>A run of the v0.3 agent with the robot walled in\<close>

lemma deque_append_set: "set (deque_append n d x) \<subseteq> insert x (set d)"
  by (cases d) (auto simp add: deque_append_def)

lemma deque_append_length:
  "length d \<le> n \<Longrightarrow> 0 < n \<Longrightarrow> length (deque_append n d x) = min (length d + 1) n"
  by (auto simp add: deque_append_def)

lemma panic_short: "length hist < 10 \<Longrightarrow> StructGate_panic hist = 0"
  by (simp add: StructGate_panic_def Cfg_SVD_WINDOW_def)

lemma panic_const: "StructGate_panic [p, p, p, p, p, p, p, p, p, p] = 1"
  by (cases p) (simp add: StructGate_panic_def svd_s_def centred_def col_mean_def singular_values_def
      Let_def Cfg_SVD_WINDOW_def Cfg_SVD_GAIN_def clip_def)

lemma panic_same:
  assumes "length hist = 10" "\<forall>p \<in> set hist. p = q"
  shows "StructGate_panic hist = 1"
proof -
  have "hist = replicate (length hist) q"
    using assms(2) by (simp add: replicate_length_same)
  then have "hist = [q, q, q, q, q, q, q, q, q, q]"
    using assms(1) by (simp add: eval_nat_numeral)
  then show ?thesis using panic_const by simp
qed

lemma LPIMonitor_update_bounds:
  assumes "0 \<le> H" "H \<le> 1" "0 \<le> lpi" "lpi \<le> 82 / 1000" "0 \<le> d" "d \<le> 1"
  shows "0 \<le> fst (LPIMonitor_update H lpi d False)"
    and "fst (LPIMonitor_update H lpi d False) \<le> 82 / 1000"
    and "0 \<le> fst (snd (LPIMonitor_update H lpi d False))"
    and "fst (snd (LPIMonitor_update H lpi d False)) \<le> 1"
  using assms
  by (auto simp add: LPIMonitor_update_def Let_def clip_def min_def max_def
      Cfg_STEP_DECAY_def Cfg_COLLAPSE_DECAY_def Cfg_DAMAGE_GAIN_def Cfg_LPI_RHO_def)

lemma stuck_invariant:
  "length (ab_hist (run_b AgentB_StructGate stuck_world k)) = min k 10
   \<and> (\<forall>p \<in> set (ab_hist (run_b AgentB_StructGate stuck_world k)). p = (3, 3))
   \<and> 0 \<le> ab_H (run_b AgentB_StructGate stuck_world k)
   \<and> ab_H (run_b AgentB_StructGate stuck_world k) \<le> 1
   \<and> 0 \<le> ab_lpi (run_b AgentB_StructGate stuck_world k)
   \<and> ab_lpi (run_b AgentB_StructGate stuck_world k) \<le> 82 / 1000"
proof (induction k)
  case 0
  then show ?case by (simp add: AgentB_StructGate_def)
next
  case (Suc k)
  let ?s = "run_b AgentB_StructGate stuck_world k"
  have pos: "vw_pos (stuck_world k) = (3, 3)" "vw_dock (stuck_world k) = (0, 0)"
    by (simp_all add: stuck_world_def)
  have r: "0 \<le> risk_now ?s (stuck_world k)" "risk_now ?s (stuck_world k) \<le> 1"
    using StructGate_panic_range by (simp_all add: risk_now_def)
  have len: "length (ab_hist (run_b AgentB_StructGate stuck_world (Suc k))) = min (Suc k) 10"
    using Suc.IH by (simp add: act_fields deque_append_length Cfg_SVD_WINDOW_def)
  have same: "\<forall>p \<in> set (ab_hist (run_b AgentB_StructGate stuck_world (Suc k))). p = (3, 3)"
    using Suc.IH deque_append_set [of Cfg_SVD_WINDOW "ab_hist ?s" "(3, 3)"]
    by (auto simp add: act_fields pos)
  have "0 \<le> ab_H (run_b AgentB_StructGate stuck_world (Suc k))"
    "ab_H (run_b AgentB_StructGate stuck_world (Suc k)) \<le> 1"
    "0 \<le> ab_lpi (run_b AgentB_StructGate stuck_world (Suc k))"
    "ab_lpi (run_b AgentB_StructGate stuck_world (Suc k)) \<le> 82 / 1000"
    using Suc.IH r LPIMonitor_update_bounds [of "ab_H ?s" "ab_lpi ?s" "risk_now ?s (stuck_world k)"]
    by (simp_all add: act_fields pos stress_now_def)
  with len same show ?case by blast
qed

lemma stuck_facts:
  assumes "k \<le> 38"
  shows "risk_now (run_b AgentB_StructGate stuck_world k) (stuck_world k) = (if 9 \<le> k then 1 else 0)"
    and "\<not> battery_low (run_b AgentB_StructGate stuck_world k) (stuck_world k)"
    and "risk_high (run_b AgentB_StructGate stuck_world k) (stuck_world k) \<longleftrightarrow> 9 \<le> k"
proof -
  let ?s = "run_b AgentB_StructGate stuck_world k"
  let ?h = "deque_append Cfg_SVD_WINDOW (ab_hist ?s) (vw_pos (stuck_world k))"
  have pos: "vw_pos (stuck_world k) = (3, 3)" "vw_battery (stuck_world k) = 60 - int k"
    by (simp_all add: stuck_world_def)
  have inv: "length (ab_hist ?s) = min k 10" "\<forall>p \<in> set (ab_hist ?s). p = (3, 3)"
    using stuck_invariant [of k] by simp_all
  have len: "length ?h = min (k + 1) 10"
    using inv(1) by (simp add: deque_append_length Cfg_SVD_WINDOW_def)
  have same: "\<forall>p \<in> set ?h. p = (3, 3)"
    using inv(2) deque_append_set [of Cfg_SVD_WINDOW "ab_hist ?s" "(3, 3)"] by (auto simp add: pos)
  show r: "risk_now ?s (stuck_world k) = (if 9 \<le> k then 1 else 0)"
  proof (cases "9 \<le> k")
    case True
    with len have "length ?h = 10" by simp
    from panic_same [OF this same] True show ?thesis by (simp add: risk_now_def)
  next
    case False
    with len have "length ?h < 10" by simp
    from panic_short [OF this] False show ?thesis by (simp add: risk_now_def)
  qed
  have lpi: "0 \<le> stress_now ?s (stuck_world k)" "stress_now ?s (stuck_world k) \<le> 82 / 1000"
    using stuck_invariant [of "Suc k"] by (simp_all add: act_fields)
  have th: "0.20 \<le> fst (dynamic_thresholds (stress_now ?s (stuck_world k)) (60 - int k))"
    "fst (dynamic_thresholds (stress_now ?s (stuck_world k)) (60 - int k)) \<le> 0.95"
    using clip_range [of "0.20" "0.95"]
    by (simp_all add: dynamic_thresholds_def Let_def)
  have "snd (dynamic_thresholds (stress_now ?s (stuck_world k)) (60 - int k)) \<le> 22"
    using lpi by (simp add: dynamic_thresholds_def Let_def clip_def Cfg_LOW_BAT_BASE_def
        Cfg_HUNGER_GAIN_BAT_def Cfg_BATTERY_MAX_def)
  then show "\<not> battery_low ?s (stuck_world k)"
    using assms by (simp add: battery_low_def pos)
  show "risk_high ?s (stuck_world k) \<longleftrightarrow> 9 \<le> k"
    using th by (simp add: risk_high_def pos r)
qed

lemma stuck_step:
  fixes k :: nat
  defines "s \<equiv> run_b AgentB_StructGate stuck_world k"
  defines "s' \<equiv> run_b AgentB_StructGate stuck_world (Suc k)"
  defines "trig \<equiv> ab_mode s = NORMAL \<and> (ab_cooldown s = 0 \<or> ab_cooldown s = 1) \<and> 9 \<le> k"
  assumes "k \<le> 38"
  shows "ab_mode s' =
      (if trig then ESCAPE
       else if ab_mode s = ESCAPE \<and> ab_escape_timer s \<le> 0 then NORMAL else ab_mode s)"
    and "ab_cooldown s' =
      (if trig then 6 else if ab_cooldown s > 0 then ab_cooldown s - 1 else ab_cooldown s)"
    and "ab_escape_timer s' =
      (if trig then 3
       else if ab_mode s = ESCAPE \<and> 0 < ab_escape_timer s then ab_escape_timer s - 1
       else ab_escape_timer s)"
    and "ab_pending_rescue s' =
      (if trig then Some (int k, 1, (3, 3))
       else if rescue_due s (int k) then None else ab_pending_rescue s)"
    and "ab_panic_events s' = ab_panic_events s + (if trig then 1 else 0)"
    and "ab_risk_drop_events s' = ab_risk_drop_events s + (if rescue_due s (int k) then 1 else 0)"
    and "ab_panic_saved s' = ab_panic_saved s + (if rescue_due s (int k) then 1 else 0)"
proof -
  have t: "triggers s (stuck_world k) \<longleftrightarrow> trig"
    using stuck_facts [OF assms(4)] by (simp add: triggers_def s_def trig_def)
  have f: "\<not> battery_low s (stuck_world k)"
    "risk_now s (stuck_world k) = (if 9 \<le> k then 1 else 0)"
    "vw_pos (stuck_world k) = (3, 3)"
    using stuck_facts [OF assms(4)] by (simp_all add: s_def stuck_world_def)
  have nine: "9 \<le> k" if trig using that by (simp add: trig_def)
  show "ab_mode s' =
      (if trig then ESCAPE
       else if ab_mode s = ESCAPE \<and> ab_escape_timer s \<le> 0 then NORMAL else ab_mode s)"
    unfolding s'_def run_b.simps s_def [symmetric] by (simp add: act_fields t f)
  show "ab_cooldown s' =
      (if trig then 6 else if ab_cooldown s > 0 then ab_cooldown s - 1 else ab_cooldown s)"
    unfolding s'_def run_b.simps s_def [symmetric]
    by (simp add: act_fields t f Cfg_COOLDOWN_STEPS_def)
  show "ab_escape_timer s' =
      (if trig then 3
       else if ab_mode s = ESCAPE \<and> 0 < ab_escape_timer s then ab_escape_timer s - 1
       else ab_escape_timer s)"
    unfolding s'_def run_b.simps s_def [symmetric]
    by (simp add: act_fields t f Cfg_ESCAPE_STEPS_def)
  show "ab_pending_rescue s' =
      (if trig then Some (int k, 1, (3, 3))
       else if rescue_due s (int k) then None else ab_pending_rescue s)"
    unfolding s'_def run_b.simps s_def [symmetric]
    using nine by (simp add: act_fields t f)
  show "ab_panic_events s' = ab_panic_events s + (if trig then 1 else 0)"
    unfolding s'_def run_b.simps s_def [symmetric] by (simp add: act_fields t)
  show "ab_risk_drop_events s' = ab_risk_drop_events s + (if rescue_due s (int k) then 1 else 0)"
    unfolding s'_def run_b.simps s_def [symmetric] by (simp add: act_fields)
  show "ab_panic_saved s' = ab_panic_saved s + (if rescue_due s (int k) then 1 else 0)"
    unfolding s'_def run_b.simps s_def [symmetric] by (simp add: act_fields)
qed

definition ctl :: "agent_b \<Rightarrow> mode \<times> int \<times> int \<times> (int \<times> real \<times> pos) option \<times> int \<times> int \<times> int" where
  "ctl s = (ab_mode s, ab_escape_timer s, ab_cooldown s, ab_pending_rescue s,
            ab_panic_events s, ab_risk_drop_events s, ab_panic_saved s)"

lemma stuck_ctl_step:
  assumes "k \<le> 38" "ctl (run_b AgentB_StructGate stuck_world k) = (m, e, c, p, pe, rde, ps)"
    and "k' = Suc k"
  shows "ctl (run_b AgentB_StructGate stuck_world k') =
     (let trig = (m = NORMAL \<and> (c = 0 \<or> c = 1) \<and> 9 \<le> k);
          due = (case p of None \<Rightarrow> False | Some (t0, r, q) \<Rightarrow> int k - t0 \<ge> 12)
      in (if trig then ESCAPE else if m = ESCAPE \<and> e \<le> 0 then NORMAL else m,
          if trig then 3 else if m = ESCAPE \<and> 0 < e then e - 1 else e,
          if trig then 6 else if c > 0 then c - 1 else c,
          if trig then Some (int k, 1, (3, 3)) else if due then None else p,
          pe + (if trig then 1 else 0),
          rde + (if due then 1 else 0),
          ps + (if due then 1 else 0)))"
proof -
  let ?s = "run_b AgentB_StructGate stuck_world k"
  have f: "ab_mode ?s = m" "ab_escape_timer ?s = e" "ab_cooldown ?s = c"
    "ab_pending_rescue ?s = p" "ab_panic_events ?s = pe" "ab_risk_drop_events ?s = rde"
    "ab_panic_saved ?s = ps"
    using assms(2) by (simp_all add: ctl_def)
  have due: "rescue_due ?s (int k) \<longleftrightarrow>
      (case p of None \<Rightarrow> False | Some (t0, r, q) \<Rightarrow> int k - t0 \<ge> 12)"
    by (simp add: rescue_due_def f Cfg_RESCUE_WINDOW_def split: option.splits)
  show ?thesis
    unfolding assms(3) ctl_def stuck_step [OF assms(1)] due f Let_def ..
qed

lemma stuck_run_trace:
  "ctl (run_b AgentB_StructGate stuck_world 9) = (NORMAL, 0, 0, None, 0, 0, 0)"
  "ctl (run_b AgentB_StructGate stuck_world 10) = (ESCAPE, 3, 6, Some (9, 1, (3, 3)), 1, 0, 0)"
  "ctl (run_b AgentB_StructGate stuck_world 15) = (NORMAL, 0, 1, Some (9, 1, (3, 3)), 1, 0, 0)"
  "ctl (run_b AgentB_StructGate stuck_world 16) = (ESCAPE, 3, 6, Some (15, 1, (3, 3)), 2, 0, 0)"
  "ctl (run_b AgentB_StructGate stuck_world 21) = (NORMAL, 0, 1, Some (15, 1, (3, 3)), 2, 0, 0)"
  "ctl (run_b AgentB_StructGate stuck_world 22) = (ESCAPE, 3, 6, Some (21, 1, (3, 3)), 3, 0, 0)"
proof -
  let ?R = "run_b AgentB_StructGate stuck_world"
  have s0: "ctl (?R 0) = (NORMAL, 0, 0, None, 0, 0, 0)"
    by (simp add: ctl_def AgentB_StructGate_def)
  have s1: "ctl (?R 1) = (NORMAL, 0, 0, None, 0, 0, 0)"
    using stuck_ctl_step [OF _ s0, of 1] by simp
  have s2: "ctl (?R 2) = (NORMAL, 0, 0, None, 0, 0, 0)"
    using stuck_ctl_step [OF _ s1, of 2] by simp
  have s3: "ctl (?R 3) = (NORMAL, 0, 0, None, 0, 0, 0)"
    using stuck_ctl_step [OF _ s2, of 3] by simp
  have s4: "ctl (?R 4) = (NORMAL, 0, 0, None, 0, 0, 0)"
    using stuck_ctl_step [OF _ s3, of 4] by simp
  have s5: "ctl (?R 5) = (NORMAL, 0, 0, None, 0, 0, 0)"
    using stuck_ctl_step [OF _ s4, of 5] by simp
  have s6: "ctl (?R 6) = (NORMAL, 0, 0, None, 0, 0, 0)"
    using stuck_ctl_step [OF _ s5, of 6] by simp
  have s7: "ctl (?R 7) = (NORMAL, 0, 0, None, 0, 0, 0)"
    using stuck_ctl_step [OF _ s6, of 7] by simp
  have s8: "ctl (?R 8) = (NORMAL, 0, 0, None, 0, 0, 0)"
    using stuck_ctl_step [OF _ s7, of 8] by simp
  show s9: "ctl (?R 9) = (NORMAL, 0, 0, None, 0, 0, 0)"
    using stuck_ctl_step [OF _ s8, of 9] by simp
  show s10: "ctl (?R 10) = (ESCAPE, 3, 6, Some (9, 1, (3, 3)), 1, 0, 0)"
    using stuck_ctl_step [OF _ s9, of 10] by simp
  have s11: "ctl (?R 11) = (ESCAPE, 2, 5, Some (9, 1, (3, 3)), 1, 0, 0)"
    using stuck_ctl_step [OF _ s10, of 11] by simp
  have s12: "ctl (?R 12) = (ESCAPE, 1, 4, Some (9, 1, (3, 3)), 1, 0, 0)"
    using stuck_ctl_step [OF _ s11, of 12] by simp
  have s13: "ctl (?R 13) = (ESCAPE, 0, 3, Some (9, 1, (3, 3)), 1, 0, 0)"
    using stuck_ctl_step [OF _ s12, of 13] by simp
  have s14: "ctl (?R 14) = (NORMAL, 0, 2, Some (9, 1, (3, 3)), 1, 0, 0)"
    using stuck_ctl_step [OF _ s13, of 14] by simp
  show s15: "ctl (?R 15) = (NORMAL, 0, 1, Some (9, 1, (3, 3)), 1, 0, 0)"
    using stuck_ctl_step [OF _ s14, of 15] by simp
  show s16: "ctl (?R 16) = (ESCAPE, 3, 6, Some (15, 1, (3, 3)), 2, 0, 0)"
    using stuck_ctl_step [OF _ s15, of 16] by simp
  have s17: "ctl (?R 17) = (ESCAPE, 2, 5, Some (15, 1, (3, 3)), 2, 0, 0)"
    using stuck_ctl_step [OF _ s16, of 17] by simp
  have s18: "ctl (?R 18) = (ESCAPE, 1, 4, Some (15, 1, (3, 3)), 2, 0, 0)"
    using stuck_ctl_step [OF _ s17, of 18] by simp
  have s19: "ctl (?R 19) = (ESCAPE, 0, 3, Some (15, 1, (3, 3)), 2, 0, 0)"
    using stuck_ctl_step [OF _ s18, of 19] by simp
  have s20: "ctl (?R 20) = (NORMAL, 0, 2, Some (15, 1, (3, 3)), 2, 0, 0)"
    using stuck_ctl_step [OF _ s19, of 20] by simp
  show s21: "ctl (?R 21) = (NORMAL, 0, 1, Some (15, 1, (3, 3)), 2, 0, 0)"
    using stuck_ctl_step [OF _ s20, of 21] by simp
  show s22: "ctl (?R 22) = (ESCAPE, 3, 6, Some (21, 1, (3, 3)), 3, 0, 0)"
    using stuck_ctl_step [OF _ s21, of 22] by simp
qed

subsection \<open>A run of the frontier probe out along a row and back\<close>

definition row_world :: "nat \<Rightarrow> fworld" where
  "row_world k =
     \<lparr>fw_pos = (if k \<le> 11 then (int k, 0) else if k \<le> 41 then (11, 0)
                else if k \<le> 52 then (52 - int k, 0) else (0, 0)),
      fw_battery = (if k = 0 \<or> 52 \<le> k then 60 else 60 - int k),
      fw_steps = int k\<rparr>"

lemma risk_short: "length hist < 5 \<Longrightarrow> StructGate_risk hist = 0"
  by (simp add: StructGate_risk_def)

lemma col_mean_const:
  assumes "xs \<noteq> []" "\<forall>x \<in> set xs. x = c"
  shows "col_mean xs = c"
proof -
  have "sum_list xs = real (length xs) * c"
    using assms(2) by (induction xs) (simp_all add: algebra_simps)
  with assms(1) show ?thesis by (simp add: col_mean_def)
qed

lemma risk_row:
  assumes len: "5 \<le> length hist" and row: "\<forall>p \<in> set hist. snd p = y"
  shows "StructGate_risk hist = 1"
proof -
  let ?ys = "map (\<lambda>p. real_of_int (snd p)) hist"
  have ne: "hist \<noteq> []" using len by auto
  have "col_mean ?ys = real_of_int y"
    using ne row by (intro col_mean_const) auto
  then have zero: "\<forall>p \<in> set (centred hist). snd p = 0"
    using row by (auto simp add: centred_def Let_def)
  have b: "(\<Sum>p\<leftarrow>centred hist. fst p * snd p) = 0"
    using zero by (induction "centred hist") (simp_all add: sum_list_0 cong: map_cong)
  have c: "(\<Sum>p\<leftarrow>centred hist. snd p * snd p) = 0"
    using zero by (simp cong: map_cong)
  have a: "0 \<le> (\<Sum>p\<leftarrow>centred hist. fst p * fst p)"
    by (rule sum_sq_nonneg)
  have l: "length (centred hist) = length hist"
    by (simp add: centred_def Let_def)
  have s1: "singular_values (centred hist) ! 1 = 0"
    using a len by (simp add: singular_values_def Let_def b c l)
  have "centred hist \<noteq> []" using ne l by auto
  then show ?thesis
    using len s1 by (simp add: StructGate_risk_def svd_s_def singular_values_length l)
qed

lemma row_invariant:
  "ca_alpha (run_f (CoaseAgent 0) row_world k) = 0
   \<and> length (ca_hist (run_f (CoaseAgent 0) row_world k)) = min k 10
   \<and> (\<forall>p \<in> set (ca_hist (run_f (CoaseAgent 0) row_world k)). snd p = 0)"
proof (induction k)
  case 0
  then show ?case by (simp add: CoaseAgent_def)
next
  case (Suc k)
  let ?s = "run_f (CoaseAgent 0) row_world k"
  have pos: "snd (fw_pos (row_world k)) = 0" by (simp add: row_world_def)
  have "length (ca_hist (run_f (CoaseAgent 0) row_world (Suc k))) = min (Suc k) 10"
    using Suc.IH by (simp add: choose_fields deque_append_length SVD_WINDOW_def)
  moreover have "\<forall>p \<in> set (ca_hist (run_f (CoaseAgent 0) row_world (Suc k))). snd p = 0"
    using Suc.IH pos deque_append_set [of SVD_WINDOW "ca_hist ?s" "fw_pos (row_world k)"]
    by (auto simp add: choose_fields)
  ultimately show ?case using Suc.IH by (simp add: choose_fields)
qed

lemma row_mode:
  "ca_mode (run_f (CoaseAgent 0) row_world (Suc k)) =
     (if 41 \<le> k \<and> k \<le> 51 then SURVIVAL else if 4 \<le> k then PANIC else NORMAL)"
proof -
  let ?s = "run_f (CoaseAgent 0) row_world k"
  let ?h = "deque_append SVD_WINDOW (ca_hist ?s) (fw_pos (row_world k))"
  have inv: "ca_alpha ?s = 0" "length (ca_hist ?s) = min k 10" "\<forall>p \<in> set (ca_hist ?s). snd p = 0"
    using row_invariant [of k] by simp_all
  have pos: "snd (fw_pos (row_world k)) = 0" by (simp add: row_world_def)
  have len: "length ?h = min (k + 1) 10"
    using inv(2) by (simp add: deque_append_length SVD_WINDOW_def)
  have row: "\<forall>p \<in> set ?h. snd p = 0"
    using inv(3) pos deque_append_set [of SVD_WINDOW "ca_hist ?s" "fw_pos (row_world k)"] by auto
  have r: "frontier_risk_now ?s (row_world k) = (if 4 \<le> k then 1 else 0)"
  proof (cases "4 \<le> k")
    case True
    with len have "5 \<le> length ?h" by simp
    from risk_row [OF this row] True show ?thesis by (simp add: frontier_risk_now_def)
  next
    case False
    with len have "length ?h < 5" by simp
    from risk_short [OF this] False show ?thesis by (simp add: frontier_risk_now_def)
  qed
  have low: "frontier_low ?s (row_world k) \<longleftrightarrow> 41 \<le> k \<and> k \<le> 51"
    by (auto simp add: frontier_low_def inv(1) frontier_low_bat_th_def BASE_LOW_BAT_def
        row_world_def)
  have hot: "frontier_hot ?s (row_world k) \<longleftrightarrow> 4 \<le> k"
    by (simp add: frontier_hot_def inv(1) frontier_panic_th_def BASE_PANIC_TH_def r Let_def)
  show ?thesis by (simp add: choose_fields low hot)
qed

lemma row_mode_at:
  "ca_mode (run_f (CoaseAgent 0) row_world k) =
     (if 42 \<le> k \<and> k \<le> 52 then SURVIVAL else if 5 \<le> k then PANIC else NORMAL)"
proof (cases k)
  case 0
  then show ?thesis by (simp add: CoaseAgent_def)
next
  case (Suc j)
  then show ?thesis unfolding Suc row_mode by auto
qed

lemma row_starts: "starts_f (CoaseAgent 0) row_world k \<longleftrightarrow> k = 4 \<or> k = 52"
  unfolding starts_f_def row_mode row_mode_at by auto

lemma count_upt: "length (filter P [0..<n]) = card {k. k < n \<and> P k}"
proof -
  have "{i. i < length [0..<n] \<and> P ([0..<n] ! i)} = {k. k < n \<and> P k}" by auto
  then show ?thesis by (simp add: length_filter_conv_card)
qed

lemma row_run_counts:
  "ca_panic_events (run_f (CoaseAgent 0) row_world 52) = 1"
  "ca_panic_events (run_f (CoaseAgent 0) row_world 53) = 2"
  "length (filter (\<lambda>k. ca_mode (run_f (CoaseAgent 0) row_world k) = NORMAL
      \<and> ca_mode (run_f (CoaseAgent 0) row_world (Suc k)) = PANIC) [0..<53]) = 1"
proof -
  have a: "{k. k < 52 \<and> (k = 4 \<or> k = 52)} = {4 :: nat}" by auto
  have b: "{k. k < 53 \<and> (k = 4 \<or> k = 52)} = {4, 52 :: nat}" by auto
  have e0: "ca_panic_events (CoaseAgent 0) = 0" by (simp add: CoaseAgent_def)
  show "ca_panic_events (run_f (CoaseAgent 0) row_world 52) = 1"
    by (simp add: run_f_events row_starts count_upt a e0)
  show "ca_panic_events (run_f (CoaseAgent 0) row_world 53) = 2"
    by (simp add: run_f_events row_starts count_upt b e0)
  have "(ca_mode (run_f (CoaseAgent 0) row_world k) = NORMAL
      \<and> ca_mode (run_f (CoaseAgent 0) row_world (Suc k)) = PANIC) \<longleftrightarrow> k = 4" for k
    unfolding row_mode row_mode_at by auto
  moreover have "{k. k < 53 \<and> k = 4} = {4 :: nat}" by auto
  ultimately show "length (filter (\<lambda>k. ca_mode (run_f (CoaseAgent 0) row_world k) = NORMAL
      \<and> ca_mode (run_f (CoaseAgent 0) row_world (Suc k)) = PANIC) [0..<53]) = 1"
    by (simp add: count_upt)
qed

section \<open>Properties of the panic state machines\<close>

lemma corner_game_panic:
  "get_action (BaseAgent True) corner_game =
     Inr (None, \<lparr>ba_is_coase = True, ba_panic_history = [30], ba_in_panic = True\<rparr>)"
proof -
  let ?body = "[(0, 0), (1, 0), (1, 1), (0, 1), (0, 2)] :: pos list"
  have area: "flood_fill_count (0, 0) ?body 20 20 = 1"
    by (simp add: flood_fill_count_def MOVES_def)
  have topo: "topo_risk ?body 20 20 = 0.8"
    by (simp add: topo_risk_def area clip_def)
  have "0 \<le> geom_risk ?body" using geom_risk_range by simp
  then have risk: "base_threshold 0 \<le> analyze_risk ?body 20 20"
    by (simp add: analyze_risk_def topo base_threshold_def hunger_ratio_def
        Config_W_TOPO_def Config_W_GEOM_def Config_RISK_THRESHOLD_BASE_def)
  have boxed: "get_max_reach_move (0, 0) [(0, 0), (1, 0), (1, 1), (0, 1)] 20 20 = None"
    by (simp add: get_max_reach_move_def MOVES_def)
  have path: "bfs_path (0, 0) g [(0, 0), (1, 0), (1, 1), (0, 1)] 20 20 = None" for g
    using boxed by (simp add: bfs_path_boxed get_max_reach_move_none)
  show ?thesis
    by (simp add: get_action_def corner_game_def BaseAgent_def Let_def risk boxed path)
qed

text \<open>
  C2 (as the code has it). The recorded number of panic episodes equals the number of
  entries into the panic mode, never the number of steps spent in it: in Snake-SHM an
  episode is appended exactly on a call that switches \<^verbatim>\<open>in_panic\<close> from false to true; in
  Vacuum-X v0.3 the counter grows by one exactly on a call that takes the mode from
  \<^verbatim>\<open>NORMAL\<close> to \<^verbatim>\<open>ESCAPE\<close>; in the frontier probe it grows by one exactly on a call
  that takes the mode from any mode other than \<^verbatim>\<open>PANIC\<close> (\<^verbatim>\<open>NORMAL\<close> or \<^verbatim>\<open>SURVIVAL\<close>)
  to \<^verbatim>\<open>PANIC\<close>. Over a run the count is the initial count plus the number of such calls.
\<close>

theorem panic_episodes_count_entries:
  "(get_action s g = Inr (action, s') \<longrightarrow>
      ba_panic_history s' =
        (if \<not> ba_in_panic s \<and> ba_in_panic s' then ba_panic_history s @ [game_steps_total g]
         else ba_panic_history s))
   \<and> (run_snake A gs n = Inr s \<longrightarrow>
        length (ba_panic_history s) =
          length (ba_panic_history A) + length (filter (enters_snake A gs) [0..<n]))
   \<and> ab_panic_events (act b world t) =
        ab_panic_events b + (if ab_mode b = NORMAL \<and> ab_mode (act b world t) = ESCAPE then 1 else 0)
   \<and> ab_panic_events (run_b B ws n) =
        ab_panic_events B + int (length (filter (starts_b B ws) [0..<n]))
   \<and> ca_panic_events (CoaseAgent_choose c fworld) =
        ca_panic_events c
          + (if ca_mode c \<noteq> PANIC \<and> ca_mode (CoaseAgent_choose c fworld) = PANIC then 1 else 0)
   \<and> ca_panic_events (run_f C fs n) =
        ca_panic_events C + int (length (filter (starts_f C fs) [0..<n]))"
proof -
  have "ab_mode b = NORMAL \<and> ab_mode (act b world t) = ESCAPE \<longleftrightarrow> triggers b world"
    by (auto simp add: act_fields triggers_def)
  moreover have "ca_mode c \<noteq> PANIC \<and> ca_mode (CoaseAgent_choose c fworld) = PANIC
      \<longleftrightarrow> enters c fworld"
    by (auto simp add: choose_fields enters_def)
  ultimately show ?thesis
    using get_action_state(1) [of s g action s'] run_snake_history [of A gs n s]
      run_b_events [of B ws n] run_f_events [of C fs n]
    by (simp add: act_fields choose_fields)
qed

theorem panic_episodes_count_entries_witness:
  "run_snake (BaseAgent True) (\<lambda>k. corner_game) 1 =
     Inr \<lparr>ba_is_coase = True, ba_panic_history = [30], ba_in_panic = True\<rparr>
   \<and> length (filter (enters_snake (BaseAgent True) (\<lambda>k. corner_game)) [0..<1]) = 1
   \<and> ab_panic_events (run_b AgentB_StructGate stuck_world 22) = 3
   \<and> int (length (filter (starts_b AgentB_StructGate stuck_world) [0..<22])) = 3
   \<and> ca_panic_events (run_f (CoaseAgent 0) row_world 53) = 2
   \<and> int (length (filter (starts_f (CoaseAgent 0) row_world) [0..<53])) = 2"
proof -
  let ?s = "\<lparr>ba_is_coase = True, ba_panic_history = [30], ba_in_panic = True\<rparr>"
  have run: "run_snake (BaseAgent True) (\<lambda>k. corner_game) 1 = Inr ?s"
    by (simp add: corner_game_panic)
  have b: "ab_panic_events (run_b AgentB_StructGate stuck_world 22) = 3"
    using stuck_run_trace(6) by (simp add: ctl_def)
  have f: "ca_panic_events (run_f (CoaseAgent 0) row_world 53) = 2"
    by (rule row_run_counts(2))
  have init: "length (ba_panic_history (BaseAgent True)) = 0"
    "ab_panic_events AgentB_StructGate = 0" "ca_panic_events (CoaseAgent 0) = 0"
    by (simp_all add: BaseAgent_def AgentB_StructGate_def CoaseAgent_def)
  have len: "length (ba_panic_history ?s) = 1"
    by simp
  have "length (ba_panic_history ?s) =
      length (ba_panic_history (BaseAgent True))
        + length (filter (enters_snake (BaseAgent True) (\<lambda>k. corner_game)) [0..<1])"
    by (rule panic_episodes_count_entries [where A = "BaseAgent True" and n = 1,
          THEN conjunct2, THEN conjunct1, THEN mp, OF run])
  then have c1: "length (filter (enters_snake (BaseAgent True) (\<lambda>k. corner_game)) [0..<1]) = 1"
    unfolding init len by linarith
  have "ab_panic_events (run_b AgentB_StructGate stuck_world 22) =
      ab_panic_events AgentB_StructGate
        + int (length (filter (starts_b AgentB_StructGate stuck_world) [0..<22]))"
    by (rule panic_episodes_count_entries [where n = 22,
          THEN conjunct2, THEN conjunct2, THEN conjunct2, THEN conjunct1])
  then have c2: "int (length (filter (starts_b AgentB_StructGate stuck_world) [0..<22])) = 3"
    unfolding init b by linarith
  have "ca_panic_events (run_f (CoaseAgent 0) row_world 53) =
      ca_panic_events (CoaseAgent 0)
        + int (length (filter (starts_f (CoaseAgent 0) row_world) [0..<53]))"
    by (rule panic_episodes_count_entries [where n = 53,
          THEN conjunct2, THEN conjunct2, THEN conjunct2, THEN conjunct2, THEN conjunct2])
  then have c3: "int (length (filter (starts_f (CoaseAgent 0) row_world) [0..<53])) = 2"
    unfolding init f by linarith
  from run c1 b c2 f c3 show ?thesis by (intro conjI)
qed

theorem frontier_counts_entry_from_survival_counterexample:
  "ca_mode (run_f (CoaseAgent 0) row_world 52) = SURVIVAL
   \<and> ca_mode (run_f (CoaseAgent 0) row_world 53) = PANIC
   \<and> ca_panic_events (run_f (CoaseAgent 0) row_world 52) = 1
   \<and> ca_panic_events (run_f (CoaseAgent 0) row_world 53) = 2
   \<and> length (filter (\<lambda>k. ca_mode (run_f (CoaseAgent 0) row_world k) = NORMAL
        \<and> ca_mode (run_f (CoaseAgent 0) row_world (Suc k)) = PANIC) [0..<53]) = 1"
  using row_run_counts by (simp add: row_mode_at)

text \<open>
  C1 (as the code has it). Snake-SHM evaluates after the run: an episode counts as
  rescued exactly when the final step count is at least \<^verbatim>\<open>RESCUE_WINDOW\<close> past its start.
  The Vacuum-X agents keep one slot, for the latest episode. In v0.3 a call evaluates
  (each of \<^verbatim>\<open>risk_drop_events\<close> and \<^verbatim>\<open>panic_saved\<close> grows by one) exactly when an episode
  started 12 calls earlier and none started since; the episode then counts as saved, and
  as a risk drop exactly when the risk is below its value at the start by more than
  0.15. In the frontier probe, while the world is not done and its step counter runs with
  the calls, \<^verbatim>\<open>panic_saved\<close> grows by one exactly on a call 12 steps after the start of an
  episode with none started since, that call included. An episode overtaken by a newer
  one is never evaluated.
\<close>

theorem rescue_accounting:
  "rescue_count [] T = 0
   \<and> rescue_count (history @ [p]) T =
       rescue_count history T + (if Config_RESCUE_WINDOW \<le> T - p then 1 else 0)
   \<and> (ab_pending_rescue B = None \<longrightarrow>
        ab_risk_drop_events (run_b B ws (Suc k)) =
          ab_risk_drop_events (run_b B ws k) + (if evaluated_b B ws k then 1 else 0)
        \<and> ab_panic_saved (run_b B ws (Suc k)) =
            ab_panic_saved (run_b B ws k) + (if evaluated_b B ws k then 1 else 0)
        \<and> ab_risk_drop_success (run_b B ws (Suc k)) =
            ab_risk_drop_success (run_b B ws k)
              + (if evaluated_b B ws k \<and> risk_at B ws k < risk_at B ws (k - 12) - 0.15
                 then 1 else 0))
   \<and> (ca_last_panic_step C = None
        \<and> (\<forall>i<n. fw_steps (fs i) = int i \<and> \<not> fw_done (fs i)) \<and> j < n \<longrightarrow>
        ca_panic_saved (run_f C fs (Suc j)) =
          ca_panic_saved (run_f C fs j) + (if evaluated_f C fs j then 1 else 0))"
  using run_b_accounting [of B ws k] run_f_accounting [of C n fs j]
  by (simp add: rescue_count_def)

theorem rescue_accounting_witness:
  "rescue_count [5, 30] 40 = 1
   \<and> ab_pending_rescue AgentB_StructGate = None
   \<and> starts_b AgentB_StructGate stuck_world 9
   \<and> \<not> evaluated_b AgentB_StructGate stuck_world 21
   \<and> ca_last_panic_step (CoaseAgent 0) = None
   \<and> evaluated_f (CoaseAgent 0) row_world 16
   \<and> ca_panic_saved (run_f (CoaseAgent 0) row_world 17) =
       ca_panic_saved (run_f (CoaseAgent 0) row_world 16) + 1"
proof -
  have none: "ab_pending_rescue AgentB_StructGate = None"
    "ca_last_panic_step (CoaseAgent 0) = None"
    by (simp_all add: AgentB_StructGate_def CoaseAgent_def)
  have st: "starts_b AgentB_StructGate stuck_world 9"
    using stuck_run_trace(1,2) by (simp add: starts_b_def ctl_def)
  have rde: "ab_risk_drop_events (run_b AgentB_StructGate stuck_world 21) = 0"
    "ab_risk_drop_events (run_b AgentB_StructGate stuck_world 22) = 0"
    using stuck_run_trace(5,6) by (simp_all add: ctl_def)
  have world: "\<forall>i<53. fw_steps (row_world i) = int i \<and> \<not> fw_done (row_world i)"
    by (auto simp add: row_world_def fw_done_def MAX_STEPS_def)
  have ev: "evaluated_f (CoaseAgent 0) row_world 16"
    by (simp add: evaluated_f_def row_starts)
  have rc: "rescue_count [5, 30] 40 = 1"
    by (simp add: rescue_count_def Config_RESCUE_WINDOW_def)
  note acc = rescue_accounting [of 40 "[5]" 30 AgentB_StructGate stuck_world 21 "CoaseAgent 0"
      53 row_world 16]
  have "ab_risk_drop_events (run_b AgentB_StructGate stuck_world (Suc 21)) =
      ab_risk_drop_events (run_b AgentB_StructGate stuck_world 21)
        + (if evaluated_b AgentB_StructGate stuck_world 21 then 1 else 0)"
    by (rule acc [THEN conjunct2, THEN conjunct2, THEN conjunct1, THEN mp, OF none(1),
          THEN conjunct1])
  then have nev: "\<not> evaluated_b AgentB_StructGate stuck_world 21"
    using rde by (simp del: run_b.simps split: if_splits)
  have "ca_panic_saved (run_f (CoaseAgent 0) row_world (Suc 16)) =
      ca_panic_saved (run_f (CoaseAgent 0) row_world 16)
        + (if evaluated_f (CoaseAgent 0) row_world 16 then 1 else 0)"
    using acc [THEN conjunct2, THEN conjunct2, THEN conjunct2, THEN mp] none(2) world
    by (simp del: run_f.simps)
  then have saved: "ca_panic_saved (run_f (CoaseAgent 0) row_world 17) =
      ca_panic_saved (run_f (CoaseAgent 0) row_world 16) + 1"
    using ev by (simp del: run_f.simps)
  from rc none st nev ev saved show ?thesis by (intro conjI)
qed

theorem overtaken_episode_unevaluated_counterexample:
  "ab_mode (run_b AgentB_StructGate stuck_world 9) = NORMAL
   \<and> ab_mode (run_b AgentB_StructGate stuck_world 10) = ESCAPE
   \<and> ab_pending_rescue (run_b AgentB_StructGate stuck_world 10) = Some (9, 1, (3, 3))
   \<and> ab_pending_rescue (run_b AgentB_StructGate stuck_world 16) = Some (15, 1, (3, 3))
   \<and> ab_pending_rescue (run_b AgentB_StructGate stuck_world 22) = Some (21, 1, (3, 3))
   \<and> ab_panic_events (run_b AgentB_StructGate stuck_world 22) = 3
   \<and> ab_risk_drop_events (run_b AgentB_StructGate stuck_world 22) = 0
   \<and> ab_panic_saved (run_b AgentB_StructGate stuck_world 22) = 0"
  using stuck_run_trace by (simp add: ctl_def)

end
